theory Spec2Isabelle
  imports Complex_Main "HOL-Library.Log_Nat"
begin

section \<open>Numbers\<close>

text \<open>
  The sensor screens compute with JavaScript numbers.  For the angles they are modelled as
  real numbers: rounding, infinities and NaN are left out, every operation is the exact
  one.  The subtraction and the additions of the heading tracker are modelled a second
  time with the rounding of binary64 written out, see \<open>track64\<close> below.

  \<open>Math.atan2 y x\<close> is the angle of the point \<open>(x, y)\<close> in the interval from \<open>-pi\<close>
  to \<open>pi\<close>, written out by quadrant with \<open>arctan\<close>.  The operator \<open>%\<close> is the remainder
  of the truncating division: the result has the sign of the dividend.
\<close>

definition atan2 :: "real \<Rightarrow> real \<Rightarrow> real" where
  "atan2 y x =
     (if 0 < x then arctan (y / x)
      else if x < 0 then (if 0 \<le> y then arctan (y / x) + pi else arctan (y / x) - pi)
      else if 0 < y then pi / 2
      else if y < 0 then - (pi / 2)
      else 0)"

definition js_rem :: "real \<Rightarrow> real \<Rightarrow> real" where
  "js_rem a b = sgn a * (\<bar>a\<bar> - \<bar>b\<bar> * of_int \<lfloor>\<bar>a\<bar> / \<bar>b\<bar>\<rfloor>)"

section \<open>CompassScreen: the magnetometer listener\<close>

text \<open>
  The state the listener of \<open>CompassScreen.tsx\<close> reads and writes: the flag
  \<open>isFirstUpdate\<close> of \<open>subscribe\<close>, the state variable \<open>heading\<close> and the two refs
  \<open>previousAngleRef\<close> and \<open>cumulativeRotationRef\<close>.  The throttled text, the haptic
  feedback and the animation only consume these values and are not modelled.
\<close>

record compass =
  isFirstUpdate :: bool
  heading :: real
  previousAngle :: real
  cumulativeRotation :: real

text \<open>The state after \<open>subscribe\<close> and before the first sample.\<close>

definition subscribed :: compass where
  "subscribed =
     \<lparr>isFirstUpdate = True, heading = 0, previousAngle = 0, cumulativeRotation = 0\<rparr>"

text \<open>Lines 96 to 99: the heading in degrees, brought into the range from 0 to 360.\<close>

definition toHeading :: "real \<Rightarrow> real \<Rightarrow> real" where
  "toHeading x y = js_rem (atan2 (- y) x * (180 / pi) + 360) 360"

text \<open>Lines 142 to 149: the difference of two headings along the shortest path.\<close>

definition shortestDelta :: "real \<Rightarrow> real \<Rightarrow> real" where
  "shortestDelta previous angle =
     (let delta = angle - previous
      in if 180 < delta then delta - 360
         else if delta < - 180 then delta + 360
         else delta)"

text \<open>Lines 102 and 118 to 153: what the listener does with the heading of a sample.\<close>

definition track :: "real \<Rightarrow> compass \<Rightarrow> compass" where
  "track angle s =
     (let s1 = s\<lparr>heading := angle\<rparr>
      in if isFirstUpdate s1
         then s1\<lparr>previousAngle := angle, cumulativeRotation := angle, isFirstUpdate := False\<rparr>
         else (let delta = shortestDelta (previousAngle s1) angle
               in s1\<lparr>cumulativeRotation := cumulativeRotation s1 + delta,
                     previousAngle := angle\<rparr>))"

definition onSample :: "real \<times> real \<Rightarrow> compass \<Rightarrow> compass" where
  "onSample xy s = track (toHeading (fst xy) (snd xy)) s"

text \<open>The listener called on a sequence of samples, in order.\<close>

definition onSamples :: "(real \<times> real) list \<Rightarrow> compass \<Rightarrow> compass" where
  "onSamples samples s = fold onSample samples s"

text \<open>
  The invariant of the tracker: the heading is in range, it is the previous angle of the
  next step, and the cumulative rotation differs from it by whole turns.
\<close>

definition turns :: "compass \<Rightarrow> bool" where
  "turns s \<longleftrightarrow> \<not> isFirstUpdate s \<and> previousAngle s = heading s
     \<and> 0 \<le> heading s \<and> heading s < 360
     \<and> (\<exists>k :: int. cumulativeRotation s = heading s + 360 * of_int k)"

section \<open>CompassScreen: the heading tracker in binary64\<close>

text \<open>
  A JavaScript number is an IEEE 754 binary64 value.  A finite one is \<open>m * 2 ^ e\<close> with
  an integer \<open>m\<close> of at most 53 bits and an exponent \<open>e\<close> from -1074 to 971, and the
  result of \<open>+\<close> and \<open>-\<close> is the exact result rounded to the nearest such value, a tie
  going to the even \<open>m\<close>.

  \<open>ilog2 x\<close> is the integer part of the binary logarithm of a positive \<open>x\<close>, computed
  from the bit length of an integer.  \<open>ulp64 x\<close> is the distance between the binary64
  values around \<open>x\<close> (\<open>2 ^ - 1074\<close> for the subnormal ones) and \<open>round64\<close> rounds to the
  nearest multiple of it.  The infinities and NaN are left out: a heading from 0 to 360 is
  finite, and a sum overflows only beyond \<open>2 ^ 1023\<close>, which the cumulative rotation
  cannot reach in fewer than \<open>2 ^ 1015\<close> samples.  The comparisons are exact, the
  constants 180 and 360 are binary64 values, and the operator \<open>%\<close> is exact in binary64,
  so \<open>js_rem\<close> stands for it here too.
\<close>

definition ilog2 :: "real \<Rightarrow> int" where
  "ilog2 x = (if 1 \<le> x then bitlen \<lfloor>x\<rfloor> - 1 else - bitlen (\<lceil>1 / x\<rceil> - 1))"

definition ulp64 :: "real \<Rightarrow> real" where
  "ulp64 x = 2 powi (max (ilog2 \<bar>x\<bar>) (- 1022) - 52)"

definition roundHalfEven :: "real \<Rightarrow> int" where
  "roundHalfEven y =
     (let f = \<lfloor>y\<rfloor>; r = y - of_int f
      in if r < 1 / 2 then f else if 1 / 2 < r then f + 1 else if even f then f else f + 1)"

definition round64 :: "real \<Rightarrow> real" where
  "round64 x = (if x = 0 then 0 else of_int (roundHalfEven (x / ulp64 x)) * ulp64 x)"

text \<open>
  Lines 142 to 149 with the rounding of the subtraction of line 142 and of the
  corrections of lines 146 and 148.
\<close>

definition shortestDelta64 :: "real \<Rightarrow> real \<Rightarrow> real" where
  "shortestDelta64 previous angle =
     (let delta = round64 (angle - previous)
      in if 180 < delta then round64 (delta - 360)
         else if delta < - 180 then round64 (delta + 360)
         else delta)"

text \<open>
  Lines 102 and 118 to 153 with the rounding of the addition of line 152.  The argument
  is the heading that lines 96 to 99 have computed for the sample, a binary64 number
  from 0 to 360.
\<close>

definition track64 :: "real \<Rightarrow> compass \<Rightarrow> compass" where
  "track64 angle s =
     (let s1 = s\<lparr>heading := angle\<rparr>
      in if isFirstUpdate s1
         then s1\<lparr>previousAngle := angle, cumulativeRotation := angle, isFirstUpdate := False\<rparr>
         else (let delta = shortestDelta64 (previousAngle s1) angle
               in s1\<lparr>cumulativeRotation := round64 (cumulativeRotation s1 + delta),
                     previousAngle := angle\<rparr>))"

definition onHeadings64 :: "real list \<Rightarrow> compass \<Rightarrow> compass" where
  "onHeadings64 hs s = fold track64 hs s"

text \<open>
  The invariant of the tracker in binary64 after the first sample and \<open>n\<close> more, when
  every step drifts by at most \<open>u\<close>: the cumulative rotation is within \<open>n * u\<close> of the
  heading plus whole turns, and it has grown by at most 181 with every sample.
\<close>

definition drift :: "real \<Rightarrow> nat \<Rightarrow> compass \<Rightarrow> bool" where
  "drift u n s \<longleftrightarrow> \<not> isFirstUpdate s \<and> previousAngle s = heading s
     \<and> 0 \<le> heading s \<and> heading s < 360
     \<and> \<bar>cumulativeRotation s\<bar> \<le> 360 + 181 * real n
     \<and> (\<exists>k :: int. \<bar>cumulativeRotation s - (heading s + 360 * of_int k)\<bar> \<le> real n * u)"

section \<open>LevelScreen: the accelerometer listener\<close>

record level =
  xAngle :: real
  yAngle :: real

text \<open>Lines 76 to 81 of \<open>LevelScreen.tsx\<close>.\<close>

definition levelSample :: "real \<Rightarrow> real \<Rightarrow> level \<Rightarrow> level" where
  "levelSample accelX accelY s =
     (let xAngleDeg = atan2 accelX (sqrt (accelY * accelY + 1)) * (180 / pi);
          yAngleDeg = atan2 accelY (sqrt (accelX * accelX + 1)) * (180 / pi)
      in s\<lparr>xAngle := xAngleDeg, yAngle := yAngleDeg\<rparr>)"

text \<open>Line 134.\<close>

definition isLevel :: "level \<Rightarrow> bool" where
  "isLevel s \<longleftrightarrow> \<bar>xAngle s\<bar> < 2 \<and> \<bar>yAngle s\<bar> < 2"

section \<open>FlashlightScreen: the state\<close>

text \<open>
  The component state of \<open>FlashlightScreen\<close> (the second file of
  \<open>CompassScreen.tsx\<close>): the state variables, the two refs and whether the camera
  permission is granted.  A state setter takes effect at once: the handlers are modelled
  as reading the state that the last setter wrote.
\<close>

datatype alert = PermissionRequired | EmptyText

record flash =
  granted :: bool
  isFlashlightOn :: bool
  sosMode :: bool
  morseText :: string
  isTransmitting :: bool
  currentChar :: "string option"
  sosActiveRef :: bool
  morseActiveRef :: bool

text \<open>
  The transmission state of the specification, read off the two mode flags.
\<close>

datatype transmission = Idle | RunningSOS | RunningMorse

definition transmissionState :: "flash \<Rightarrow> transmission" where
  "transmissionState st =
     (if sosMode st then RunningSOS else if isTransmitting st then RunningMorse else Idle)"

text \<open>
  An asynchronous function runs until its next \<open>await sleep(ms)\<close> and then waits for
  the timer; other handlers run in between.  A run of such a function up to its next
  \<open>await\<close> gives a step: the function has returned, or it sleeps for a number of
  milliseconds and has saved the place where it goes on.
\<close>

datatype 'k step = Finished flash | Sleeping flash nat 'k

text \<open>A segment of a pulse plan: the duration in milliseconds and whether the light is on.\<close>

type_synonym segment = "nat \<times> bool"

text \<open>
  A loop that runs undisturbed: \<open>drive resume n s\<close> lets the timer fire \<open>n\<close> times and
  gives the segments that were slept (the delay of each sleep with the torch flag during
  it) and the step that is reached.
\<close>

fun drive :: "('k \<Rightarrow> flash \<Rightarrow> 'k step) \<Rightarrow> nat \<Rightarrow> 'k step \<Rightarrow> segment list \<times> 'k step" where
  "drive resume 0 s = ([], s)"
| "drive resume (Suc n) (Finished st) = ([], Finished st)"
| "drive resume (Suc n) (Sleeping st d k) =
     (case drive resume n (resume k st) of
        (segs, s') \<Rightarrow> ((d, isFlashlightOn st) # segs, s'))"

fun stateOf :: "'k step \<Rightarrow> flash" where
  "stateOf (Finished st) = st"
| "stateOf (Sleeping st d k) = st"

fun isFinished :: "'k step \<Rightarrow> bool" where
  "isFinished (Finished st) = True"
| "isFinished (Sleeping st d k) = False"

section \<open>FlashlightScreen: the manual toggle and the two stop functions\<close>

text \<open>Lines 600 to 612.\<close>

definition toggleFlashlight :: "flash \<Rightarrow> alert option \<times> flash" where
  "toggleFlashlight st =
     (if \<not> granted st then (Some PermissionRequired, st)
      else if sosMode st \<or> isTransmitting st then (None, st)
      else (None, st\<lparr>isFlashlightOn := \<not> isFlashlightOn st\<rparr>))"

text \<open>Lines 714 to 718.\<close>

definition stopSOS :: "flash \<Rightarrow> flash" where
  "stopSOS st = st\<lparr>sosActiveRef := False, sosMode := False, isFlashlightOn := False\<rparr>"

text \<open>Lines 870 to 875.\<close>

definition stopMorse :: "flash \<Rightarrow> flash" where
  "stopMorse st =
     st\<lparr>morseActiveRef := False, isTransmitting := False, isFlashlightOn := False,
        currentChar := None\<rparr>"

section \<open>FlashlightScreen: the SOS loop\<close>

definition SHORT_FLASH :: nat where "SHORT_FLASH = 200"
definition LONG_FLASH :: nat where "LONG_FLASH = 600"
definition PAUSE :: nat where "PAUSE = 200"
definition PATTERN_PAUSE :: nat where "PATTERN_PAUSE = 800"

text \<open>
  The nine \<open>await\<close>s of \<open>startSOS\<close>, with the loop variable \<open>i\<close> where there is one:
  lines 669 and 671 (first dots), 675, 681 and 683 (dashes), 687, 693 and 695 (second
  dots), 699.
\<close>

datatype sos_await =
    Dots1Flash nat | Dots1Pause nat | GroupPause1
  | DashesFlash nat | DashesPause nat | GroupPause2
  | Dots2Flash nat | Dots2Pause nat | PatternPause

text \<open>Lines 702 to 704: after the \<open>while\<close> loop.\<close>

definition sos_exit :: "flash \<Rightarrow> sos_await step" where
  "sos_exit st = Finished (st\<lparr>isFlashlightOn := False, sosMode := False\<rparr>)"

text \<open>Lines 698 and 699.\<close>

definition sos_after_dots2 :: "flash \<Rightarrow> sos_await step" where
  "sos_after_dots2 st =
     (if \<not> sosActiveRef st then sos_exit st else Sleeping st PATTERN_PAUSE PatternPause)"

text \<open>Lines 690 to 693: the head of the third \<open>for\<close> loop, up to its first \<open>await\<close>.\<close>

definition sos_dots2 :: "nat \<Rightarrow> flash \<Rightarrow> sos_await step" where
  "sos_dots2 i st =
     (if i < 3 then
        (if \<not> sosActiveRef st then sos_after_dots2 st
         else Sleeping (st\<lparr>isFlashlightOn := True\<rparr>) SHORT_FLASH (Dots2Flash i))
      else sos_after_dots2 st)"

text \<open>Lines 686 and 687.\<close>

definition sos_after_dashes :: "flash \<Rightarrow> sos_await step" where
  "sos_after_dashes st =
     (if \<not> sosActiveRef st then sos_exit st else Sleeping st (PAUSE * 2) GroupPause2)"

text \<open>Lines 678 to 681.\<close>

definition sos_dashes :: "nat \<Rightarrow> flash \<Rightarrow> sos_await step" where
  "sos_dashes i st =
     (if i < 3 then
        (if \<not> sosActiveRef st then sos_after_dashes st
         else Sleeping (st\<lparr>isFlashlightOn := True\<rparr>) LONG_FLASH (DashesFlash i))
      else sos_after_dashes st)"

text \<open>Lines 674 and 675.\<close>

definition sos_after_dots1 :: "flash \<Rightarrow> sos_await step" where
  "sos_after_dots1 st =
     (if \<not> sosActiveRef st then sos_exit st else Sleeping st (PAUSE * 2) GroupPause1)"

text \<open>Lines 666 to 669.\<close>

definition sos_dots1 :: "nat \<Rightarrow> flash \<Rightarrow> sos_await step" where
  "sos_dots1 i st =
     (if i < 3 then
        (if \<not> sosActiveRef st then sos_after_dots1 st
         else Sleeping (st\<lparr>isFlashlightOn := True\<rparr>) SHORT_FLASH (Dots1Flash i))
      else sos_after_dots1 st)"

text \<open>Line 664: the head of the \<open>while\<close> loop.\<close>

definition sos_while :: "flash \<Rightarrow> sos_await step" where
  "sos_while st = (if sosActiveRef st then sos_dots1 0 st else sos_exit st)"

text \<open>What the loop does when the timer of one of its \<open>await\<close>s fires.\<close>

fun sos_resume :: "sos_await \<Rightarrow> flash \<Rightarrow> sos_await step" where
  "sos_resume (Dots1Flash i) st =
     (let st1 = st\<lparr>isFlashlightOn := False\<rparr>
      in if i < 2 then Sleeping st1 PAUSE (Dots1Pause i) else sos_dots1 (i + 1) st1)"
| "sos_resume (Dots1Pause i) st = sos_dots1 (i + 1) st"
| "sos_resume GroupPause1 st = sos_dashes 0 st"
| "sos_resume (DashesFlash i) st =
     (let st1 = st\<lparr>isFlashlightOn := False\<rparr>
      in if i < 2 then Sleeping st1 PAUSE (DashesPause i) else sos_dashes (i + 1) st1)"
| "sos_resume (DashesPause i) st = sos_dashes (i + 1) st"
| "sos_resume GroupPause2 st = sos_dots2 0 st"
| "sos_resume (Dots2Flash i) st =
     (let st1 = st\<lparr>isFlashlightOn := False\<rparr>
      in if i < 2 then Sleeping st1 PAUSE (Dots2Pause i) else sos_dots2 (i + 1) st1)"
| "sos_resume (Dots2Pause i) st = sos_dots2 (i + 1) st"
| "sos_resume PatternPause st = sos_while st"

text \<open>The delay of the sleep at each \<open>await\<close>.\<close>

fun sos_delay :: "sos_await \<Rightarrow> nat" where
  "sos_delay (Dots1Flash i) = SHORT_FLASH"
| "sos_delay (Dots1Pause i) = PAUSE"
| "sos_delay GroupPause1 = PAUSE * 2"
| "sos_delay (DashesFlash i) = LONG_FLASH"
| "sos_delay (DashesPause i) = PAUSE"
| "sos_delay GroupPause2 = PAUSE * 2"
| "sos_delay (Dots2Flash i) = SHORT_FLASH"
| "sos_delay (Dots2Pause i) = PAUSE"
| "sos_delay PatternPause = PATTERN_PAUSE"

text \<open>Lines 645 to 664: \<open>startSOS\<close> up to its first \<open>await\<close>.\<close>

definition startSOS :: "flash \<Rightarrow> alert option \<times> sos_await step" where
  "startSOS st =
     (if \<not> granted st then (Some PermissionRequired, Finished st)
      else (let st1 = (if isTransmitting st then stopMorse st else st);
                st2 = st1\<lparr>sosMode := True, sosActiveRef := True\<rparr>
            in (None, sos_while st2)))"

section \<open>FlashlightScreen: text and the Morse table\<close>

text \<open>
  The texts of the model are strings of ASCII characters, one character for each UTF-16
  unit that \<open>split('')\<close> gives.  On these \<open>toUpperCase\<close> maps the letters a to z to A
  to Z and leaves every other character as it is, and the white space of \<open>trim\<close> and of
  \<open>\s\<close> is tab, line feed, vertical tab, form feed, carriage return and space.  The
  letters and the white space that JavaScript knows beyond ASCII are not modelled.
\<close>

definition MORSE_CODE :: "char \<Rightarrow> string option" where
  "MORSE_CODE = map_of
     [(CHR ''A'', ''.-''), (CHR ''B'', ''-...''), (CHR ''C'', ''-.-.''), (CHR ''D'', ''-..''),
      (CHR ''E'', ''.''), (CHR ''F'', ''..-.''), (CHR ''G'', ''--.''), (CHR ''H'', ''....''),
      (CHR ''I'', ''..''), (CHR ''J'', ''.---''), (CHR ''K'', ''-.-''), (CHR ''L'', ''.-..''),
      (CHR ''M'', ''--''), (CHR ''N'', ''-.''), (CHR ''O'', ''---''), (CHR ''P'', ''.--.''),
      (CHR ''Q'', ''--.-''), (CHR ''R'', ''.-.''), (CHR ''S'', ''...''), (CHR ''T'', ''-''),
      (CHR ''U'', ''..-''), (CHR ''V'', ''...-''), (CHR ''W'', ''.--''), (CHR ''X'', ''-..-''),
      (CHR ''Y'', ''-.--''), (CHR ''Z'', ''--..''),
      (CHR ''0'', ''-----''), (CHR ''1'', ''.----''), (CHR ''2'', ''..---''),
      (CHR ''3'', ''...--''), (CHR ''4'', ''....-''), (CHR ''5'', ''.....''),
      (CHR ''6'', ''-....''), (CHR ''7'', ''--...''), (CHR ''8'', ''---..''),
      (CHR ''9'', ''----.'')]"

text \<open>
  Lines 810 and 812: \<open>MORSE_CODE[char]\<close> under \<open>if (pattern)\<close>.  A missing key gives
  \<open>undefined\<close>, which is not true; neither is the empty string.
\<close>

definition truthyPattern :: "char \<Rightarrow> string option" where
  "truthyPattern c =
     (case MORSE_CODE c of None \<Rightarrow> None | Some p \<Rightarrow> if p = [] then None else Some p)"

definition isSpace :: "char \<Rightarrow> bool" where
  "isSpace c \<longleftrightarrow> c = CHR 0x09 \<or> c = CHR 0x0A \<or> c = CHR 0x0B \<or> c = CHR 0x0C
     \<or> c = CHR 0x0D \<or> c = CHR 0x20"

definition toUpperCaseChar :: "char \<Rightarrow> char" where
  "toUpperCaseChar c =
     (case map_of (zip ''abcdefghijklmnopqrstuvwxyz'' ''ABCDEFGHIJKLMNOPQRSTUVWXYZ'') c of
        None \<Rightarrow> c | Some u \<Rightarrow> u)"

definition toUpperCase :: "string \<Rightarrow> string" where
  "toUpperCase s = map toUpperCaseChar s"

definition trim :: "string \<Rightarrow> string" where
  "trim s = rev (dropWhile isSpace (rev (dropWhile isSpace s)))"

text \<open>\<open>split(/\s+/)\<close>: the pieces between the runs of white space.\<close>

function splitSpaces :: "string \<Rightarrow> string list" where
  "splitSpaces s =
     (case dropWhile (\<lambda>c. \<not> isSpace c) s of
        [] \<Rightarrow> [s]
      | c # r \<Rightarrow> takeWhile (\<lambda>c. \<not> isSpace c) s # splitSpaces (dropWhile isSpace r))"
  by pat_completeness auto
termination
proof (relation "measure length")
  show "wf (measure length)" by simp
next
  fix s :: string and c r
  assume a: "dropWhile (\<lambda>c. \<not> isSpace c) s = c # r"
  have "length (dropWhile isSpace r) \<le> length r" by (rule length_dropWhile_le)
  moreover have "length (c # r) \<le> length s"
    unfolding a [symmetric] by (rule length_dropWhile_le)
  ultimately show "(dropWhile isSpace r, s) \<in> measure length" by simp
qed

section \<open>FlashlightScreen: the Morse loop\<close>

definition T :: nat where "T = 200"
definition DOT_DURATION :: nat where "DOT_DURATION = T"
definition DASH_DURATION :: nat where "DASH_DURATION = 3 * T"
definition PAUSE_PARTS :: nat where "PAUSE_PARTS = T"
definition PAUSE_LETTERS :: nat where "PAUSE_LETTERS = 3 * T"
definition PAUSE_WORDS :: nat where "PAUSE_WORDS = 7 * T"

text \<open>
  The local variables of \<open>transmitMorseWithText\<close> that live across an \<open>await\<close>
  (\<open>symbolIndex\<close> is the variable \<open>i\<close> of the innermost loop), and its five \<open>await\<close>s:
  lines 824 (a pulse), 831 (between the parts of a letter), 837 (between letters), 842
  (a character that is not in the table) and 849 (between words).
\<close>

record morse_frame =
  words :: "string list"
  wordIndex :: nat
  chars :: string
  charIndex :: nat
  pattern :: string
  symbolIndex :: nat

datatype morse_await = AwaitPulse | AwaitParts | AwaitLetters | AwaitIgnored | AwaitWords

type_synonym morse_task = "morse_await \<times> morse_frame"

text \<open>Lines 854 to 860: the \<open>finally\<close> block.  Nothing in the loop throws.\<close>

definition morse_finally :: "flash \<Rightarrow> morse_task step" where
  "morse_finally st =
     Finished (st\<lparr>isFlashlightOn := False, isTransmitting := False, currentChar := None,
                  morseActiveRef := False\<rparr>)"

text \<open>
  The places of the loop nest from which the function runs on to its next \<open>await\<close>: the
  heads of the three \<open>for\<close> loops (lines 800, 806 and 816) and the code after the two
  inner loops (lines 835 and 846), each followed by the increment of the enclosing loop.
\<close>

datatype morse_point = WordLoop | CharLoop | SymbolLoop | AfterSymbols | AfterChars

fun morse_rank :: "morse_point \<Rightarrow> morse_frame \<Rightarrow> nat" where
  "morse_rank WordLoop fr = (if wordIndex fr < length (words fr) then 6 else 0)"
| "morse_rank CharLoop fr = (if charIndex fr < length (chars fr) then 5 else 2)"
| "morse_rank SymbolLoop fr = 4"
| "morse_rank AfterSymbols fr = 3"
| "morse_rank AfterChars fr = 1"

function morse_from :: "morse_point \<Rightarrow> morse_frame \<Rightarrow> flash \<Rightarrow> morse_task step" where
  "morse_from WordLoop fr st =
     (if wordIndex fr < length (words fr) then
        (if \<not> morseActiveRef st then morse_finally st
         else morse_from CharLoop
                (fr\<lparr>chars := words fr ! wordIndex fr, charIndex := 0\<rparr>) st)
      else morse_finally st)"
| "morse_from CharLoop fr st =
     (if charIndex fr < length (chars fr) then
        (if \<not> morseActiveRef st then morse_from AfterChars fr st
         else (case truthyPattern (chars fr ! charIndex fr) of
                 Some p \<Rightarrow>
                   morse_from SymbolLoop (fr\<lparr>pattern := p, symbolIndex := 0\<rparr>)
                     (st\<lparr>currentChar :=
                           Some (chars fr ! charIndex fr # '' ('' @ p @ '')'')\<rparr>)
               | None \<Rightarrow>
                   Sleeping
                     (st\<lparr>currentChar := Some (chars fr ! charIndex fr # '' (ignored)'')\<rparr>)
                     PAUSE_LETTERS (AwaitIgnored, fr)))
      else morse_from AfterChars fr st)"
| "morse_from SymbolLoop fr st =
     (if symbolIndex fr < length (pattern fr) then
        (if \<not> morseActiveRef st then morse_from AfterSymbols fr st
         else Sleeping (st\<lparr>isFlashlightOn := True\<rparr>)
                (if pattern fr ! symbolIndex fr = CHR ''.'' then DOT_DURATION
                 else DASH_DURATION)
                (AwaitPulse, fr))
      else morse_from AfterSymbols fr st)"
| "morse_from AfterSymbols fr st =
     (if charIndex fr + 1 < length (chars fr) then Sleeping st PAUSE_LETTERS (AwaitLetters, fr)
      else morse_from CharLoop (fr\<lparr>charIndex := charIndex fr + 1\<rparr>) st)"
| "morse_from AfterChars fr st =
     (if wordIndex fr + 1 < length (words fr) then
        Sleeping (st\<lparr>currentChar := Some ''(space)''\<rparr>) PAUSE_WORDS (AwaitWords, fr)
      else morse_from WordLoop (fr\<lparr>wordIndex := wordIndex fr + 1\<rparr>) st)"
  by pat_completeness auto
termination
  by (relation "measure (\<lambda>(pt, fr, st). morse_rank pt fr)") auto

text \<open>What the loop does when the timer of one of its \<open>await\<close>s fires.\<close>

fun morse_resume :: "morse_task \<Rightarrow> flash \<Rightarrow> morse_task step" where
  "morse_resume (AwaitPulse, fr) st =
     (let st1 = st\<lparr>isFlashlightOn := False\<rparr>
      in if symbolIndex fr + 1 < length (pattern fr)
         then Sleeping st1 PAUSE_PARTS (AwaitParts, fr)
         else morse_from SymbolLoop (fr\<lparr>symbolIndex := symbolIndex fr + 1\<rparr>) st1)"
| "morse_resume (AwaitParts, fr) st =
     morse_from SymbolLoop (fr\<lparr>symbolIndex := symbolIndex fr + 1\<rparr>) st"
| "morse_resume (AwaitLetters, fr) st =
     morse_from CharLoop (fr\<lparr>charIndex := charIndex fr + 1\<rparr>) st"
| "morse_resume (AwaitIgnored, fr) st =
     morse_from CharLoop (fr\<lparr>charIndex := charIndex fr + 1\<rparr>) st"
| "morse_resume (AwaitWords, fr) st =
     morse_from WordLoop (fr\<lparr>wordIndex := wordIndex fr + 1\<rparr>) st"

text \<open>The delay of the sleep at each \<open>await\<close> of the Morse loop.\<close>

fun morse_delay :: "morse_task \<Rightarrow> nat" where
  "morse_delay (AwaitPulse, fr) =
     (if pattern fr ! symbolIndex fr = CHR ''.'' then DOT_DURATION else DASH_DURATION)"
| "morse_delay (AwaitParts, fr) = PAUSE_PARTS"
| "morse_delay (AwaitLetters, fr) = PAUSE_LETTERS"
| "morse_delay (AwaitIgnored, fr) = PAUSE_LETTERS"
| "morse_delay (AwaitWords, fr) = PAUSE_WORDS"

text \<open>Lines 770 to 787: the guards and the state changes before the loop.\<close>

definition morsePrelude :: "string \<Rightarrow> flash \<Rightarrow> alert + flash" where
  "morsePrelude textToTransmit st =
     (if \<not> granted st then Inl PermissionRequired
      else if trim textToTransmit = [] then Inl EmptyText
      else (let st1 = (if sosMode st then stopSOS st else st)
            in Inr (st1\<lparr>isTransmitting := True, morseActiveRef := True,
                        currentChar := None\<rparr>)))"

text \<open>Lines 796 to 800: the words of the text and the loop variables at the start.\<close>

definition firstFrame :: "string \<Rightarrow> morse_frame" where
  "firstFrame textToTransmit =
     \<lparr>words = splitSpaces (trim (toUpperCase textToTransmit)), wordIndex = 0,
      chars = [], charIndex = 0, pattern = [], symbolIndex = 0\<rparr>"

text \<open>Lines 769 to 861: \<open>transmitMorseWithText\<close> up to its first \<open>await\<close>.\<close>

definition transmitMorseWithText :: "string \<Rightarrow> flash \<Rightarrow> alert option \<times> morse_task step" where
  "transmitMorseWithText textToTransmit st =
     (case morsePrelude textToTransmit st of
        Inl a \<Rightarrow> (Some a, Finished st)
      | Inr st1 \<Rightarrow> (None, morse_from WordLoop (firstFrame textToTransmit) st1))"

text \<open>Lines 736 to 742.\<close>

definition transmitMorse :: "flash \<Rightarrow> alert option \<times> morse_task step" where
  "transmitMorse st =
     (if trim (morseText st) = [] then (Some EmptyText, Finished st)
      else transmitMorseWithText (morseText st) st)"

section \<open>FlashlightScreen: handlers and timers together\<close>

text \<open>
  The screen with its sleeping loops: the component state and, for every loop that is
  waiting in an \<open>await\<close>, the delay of its timer and the place where it goes on.  An
  event is a call of one of the handlers or the firing of one of the pending timers.
  Timers may fire in any order here; the order of their deadlines is one of these.
\<close>

datatype task = SosTask sos_await | MorseTask morse_task

record screen =
  ui :: flash
  timers :: "(nat \<times> task) list"

datatype event =
    StartSOS | StopSOS | HandleSOSToggle
  | TransmitMorse | TransmitMorseWithText string | StopMorse
  | ToggleFlashlight | SetMorseText string
  | TimerFires nat

fun pending :: "('k \<Rightarrow> task) \<Rightarrow> 'k step \<Rightarrow> (nat \<times> task) list" where
  "pending mk (Finished st) = []"
| "pending mk (Sleeping st d k) = [(d, mk k)]"

definition launch :: "('k \<Rightarrow> task) \<Rightarrow> alert option \<times> 'k step \<Rightarrow> screen \<Rightarrow> alert option \<times> screen" where
  "launch mk r sc =
     (fst r, sc\<lparr>ui := stateOf (snd r), timers := timers sc @ pending mk (snd r)\<rparr>)"

definition wake :: "nat \<Rightarrow> screen \<Rightarrow> screen" where
  "wake n sc =
     (if n < length (timers sc) then
        (let before = take n (timers sc); after = drop (Suc n) (timers sc)
         in case snd (timers sc ! n) of
              SosTask a \<Rightarrow>
                (let s = sos_resume a (ui sc)
                 in sc\<lparr>ui := stateOf s, timers := before @ pending SosTask s @ after\<rparr>)
            | MorseTask k \<Rightarrow>
                (let s = morse_resume k (ui sc)
                 in sc\<lparr>ui := stateOf s, timers := before @ pending MorseTask s @ after\<rparr>))
      else sc)"

fun handle :: "event \<Rightarrow> screen \<Rightarrow> alert option \<times> screen" where
  "handle StartSOS sc = launch SosTask (startSOS (ui sc)) sc"
| "handle StopSOS sc = (None, sc\<lparr>ui := stopSOS (ui sc)\<rparr>)"
| "handle HandleSOSToggle sc =
     (if sosMode (ui sc) then (None, sc\<lparr>ui := stopSOS (ui sc)\<rparr>)
      else launch SosTask (startSOS (ui sc)) sc)"
| "handle TransmitMorse sc = launch MorseTask (transmitMorse (ui sc)) sc"
| "handle (TransmitMorseWithText t) sc = launch MorseTask (transmitMorseWithText t (ui sc)) sc"
| "handle StopMorse sc = (None, sc\<lparr>ui := stopMorse (ui sc)\<rparr>)"
| "handle ToggleFlashlight sc =
     (case toggleFlashlight (ui sc) of (a, st) \<Rightarrow> (a, sc\<lparr>ui := st\<rparr>))"
| "handle (SetMorseText t) sc = (None, sc\<lparr>ui := (ui sc)\<lparr>morseText := t\<rparr>\<rparr>)"
| "handle (TimerFires n) sc = (None, wake n sc)"

definition after :: "event list \<Rightarrow> screen \<Rightarrow> screen" where
  "after evs sc = fold (\<lambda>e s. snd (handle e s)) evs sc"

text \<open>The screen when it is mounted, with the permission granted or not.\<close>

definition mounted :: "bool \<Rightarrow> screen" where
  "mounted g =
     \<lparr>ui = \<lparr>granted = g, isFlashlightOn = False, sosMode = False, morseText = [],
            isTransmitting = False, currentChar = None, sosActiveRef = False,
            morseActiveRef = False\<rparr>,
      timers = []\<rparr>"

section \<open>Pulse plans as the specification words them\<close>

text \<open>
  The SOS cycle: a group of three pulses with a gap of 200 ms between them, the groups of
  short, long and short pulses 400 ms apart, and 800 ms before the cycle repeats.
\<close>

definition sosGroup :: "nat \<Rightarrow> segment list" where
  "sosGroup d = [(d, True), (200, False), (d, True), (200, False), (d, True)]"

definition sosCycle :: "segment list" where
  "sosCycle = sosGroup 200 @ [(400, False)] @ sosGroup 600 @ [(400, False)]
     @ sosGroup 200 @ [(800, False)]"

text \<open>
  The Morse plan: the base unit is 200 ms, a dot is one unit of light and a dash three,
  the pulses of a letter are one dark unit apart with none after the last pulse.
\<close>

definition baseUnit :: nat where "baseUnit = 200"

definition symbolPulse :: "char \<Rightarrow> segment" where
  "symbolPulse c = (if c = CHR ''.'' then baseUnit else 3 * baseUnit, True)"

fun letterPulses :: "string \<Rightarrow> segment list" where
  "letterPulses [] = []"
| "letterPulses [c] = [symbolPulse c]"
| "letterPulses (c # r) = symbolPulse c # (baseUnit, False) # letterPulses r"

fun joinWith :: "'a list \<Rightarrow> 'a list list \<Rightarrow> 'a list" where
  "joinWith gap [] = []"
| "joinWith gap [x] = x"
| "joinWith gap (x # r) = x @ gap @ joinWith gap r"

text \<open>
  The plan as claim C4 words it: a character that is not in the table gives no pulse,
  the letters of a word are three dark units apart with none after the last character of
  the word, whatever that character is, and the words are seven dark units apart with
  none after the last word.
\<close>

definition claimedLetter :: "char \<Rightarrow> segment list" where
  "claimedLetter c = (case MORSE_CODE c of None \<Rightarrow> [] | Some p \<Rightarrow> letterPulses p)"

definition claimedPlan :: "string list \<Rightarrow> segment list" where
  "claimedPlan ws =
     joinWith [(7 * baseUnit, False)]
       (map (\<lambda>w. joinWith [(3 * baseUnit, False)] (map claimedLetter w)) ws)"

text \<open>
  The plan with the unknown characters as the loop treats them: a character of the table
  gives its pulses, followed by three dark units unless it is the last character of its
  word; a character that is not in the table gives three dark units wherever it stands.
\<close>

fun wordSegments :: "string \<Rightarrow> segment list" where
  "wordSegments [] = []"
| "wordSegments (c # r) =
     (case MORSE_CODE c of
        None \<Rightarrow> [(3 * baseUnit, False)]
      | Some p \<Rightarrow> letterPulses p @ (if r = [] then [] else [(3 * baseUnit, False)]))
     @ wordSegments r"

definition morsePlan :: "string list \<Rightarrow> segment list" where
  "morsePlan ws = joinWith [(7 * baseUnit, False)] (map wordSegments ws)"

section \<open>Notions for the proofs about the loops\<close>

text \<open>
  A loop gets from one step to another one by sleeping through a list of segments.
\<close>

definition reaches :: "('k \<Rightarrow> flash \<Rightarrow> 'k step) \<Rightarrow> 'k step \<Rightarrow> segment list \<Rightarrow> 'k step \<Rightarrow> bool" where
  "reaches r s segs s' \<longleftrightarrow> drive r (length segs) s = (segs, s')"

text \<open>
  Two states that differ at most in the displayed character, the second with the torch
  off.
\<close>

definition quiet :: "flash \<Rightarrow> flash \<Rightarrow> bool" where
  "quiet st st' \<longleftrightarrow> (\<exists>c. st' = st\<lparr>isFlashlightOn := False, currentChar := c\<rparr>)"

section \<open>Notions for the transmitter as a whole\<close>

text \<open>
  A sleeping loop holds the light when it sleeps in a pulse: it has switched the torch on
  and will switch it off when its timer fires.
\<close>

fun holdsLight :: "task \<Rightarrow> bool" where
  "holdsLight (SosTask (Dots1Flash i)) = True"
| "holdsLight (SosTask (DashesFlash i)) = True"
| "holdsLight (SosTask (Dots2Flash i)) = True"
| "holdsLight (SosTask a) = False"
| "holdsLight (MorseTask (aw, fr)) = (aw = AwaitPulse)"

fun isSosTask :: "task \<Rightarrow> bool" where
  "isSosTask (SosTask a) = True"
| "isSosTask (MorseTask k) = False"

text \<open>
  At most one mode flag is set, and each mode flag agrees with the cancellation flag of
  its loop.
\<close>

definition exclusive :: "flash \<Rightarrow> bool" where
  "exclusive st \<longleftrightarrow>
     \<not> (sosMode st \<and> isTransmitting st)
     \<and> sosActiveRef st = sosMode st \<and> morseActiveRef st = isTransmitting st"

text \<open>
  The loops are tracked when, moreover, a mode flag that is set has a loop of its kind
  among the sleeping loops.
\<close>

definition tracked :: "screen \<Rightarrow> bool" where
  "tracked sc \<longleftrightarrow>
     exclusive (ui sc)
     \<and> (sosMode (ui sc) \<longrightarrow> (\<exists>t \<in> set (timers sc). isSosTask (snd t)))
     \<and> (isTransmitting (ui sc) \<longrightarrow> (\<exists>t \<in> set (timers sc). \<not> isSosTask (snd t)))"

text \<open>
  The screen is consistent when the loops are tracked and a lit torch is held by one of
  the sleeping loops.
\<close>

definition consistent :: "screen \<Rightarrow> bool" where
  "consistent sc \<longleftrightarrow>
     exclusive (ui sc)
     \<and> (sosMode (ui sc) \<longrightarrow> (\<exists>t \<in> set (timers sc). isSosTask (snd t)))
     \<and> (isTransmitting (ui sc) \<longrightarrow> (\<exists>t \<in> set (timers sc). \<not> isSosTask (snd t)))
     \<and> (isFlashlightOn (ui sc) \<longrightarrow> (\<exists>t \<in> set (timers sc). holdsLight (snd t)))"

text \<open>The events that start no transmission and do not toggle the torch by hand.\<close>

fun startsNothing :: "event \<Rightarrow> bool" where
  "startsNothing (TimerFires n) = True"
| "startsNothing StopSOS = True"
| "startsNothing StopMorse = True"
| "startsNothing e = False"

text \<open>A step of a loop that leaves the loop sleeping in a pulse.\<close>

definition turnsOn :: "('k \<Rightarrow> task) \<Rightarrow> 'k step \<Rightarrow> bool" where
  "turnsOn mk s \<longleftrightarrow> (\<exists>t \<in> set (pending mk s). holdsLight (snd t))"

section \<open>Properties of the heading tracker\<close>

lemma atan2_bounds: "- pi \<le> atan2 y x \<and> atan2 y x \<le> pi"
proof -
  have a: "- (pi / 2) < arctan (y / x)" "arctan (y / x) < pi / 2"
    by (rule arctan_lbound, rule arctan_ubound)
  have p: "0 < pi" by (rule pi_gt_zero)
  have neg: "x < 0 \<Longrightarrow> 0 \<le> y \<Longrightarrow> arctan (y / x) \<le> 0"
  proof -
    assume "x < 0" "0 \<le> y"
    then have "y / x \<le> 0" by (simp add: divide_nonneg_neg)
    then have "arctan (y / x) \<le> arctan 0" by (simp only: arctan_le_iff)
    then show ?thesis by simp
  qed
  have pos: "x < 0 \<Longrightarrow> y < 0 \<Longrightarrow> 0 \<le> arctan (y / x)"
  proof -
    assume "x < 0" "y < 0"
    then have "0 \<le> y / x" by (simp add: divide_nonpos_neg)
    then have "arctan 0 \<le> arctan (y / x)" by (simp only: arctan_le_iff)
    then show ?thesis by simp
  qed
  show ?thesis
    unfolding atan2_def using a p neg pos by auto
qed

lemma degrees_bounds:
  "- 180 \<le> atan2 y x * (180 / pi) \<and> atan2 y x * (180 / pi) \<le> 180"
proof -
  have p: "0 < pi" by (rule pi_gt_zero)
  have b: "- pi \<le> atan2 y x" "atan2 y x \<le> pi" using atan2_bounds by auto
  have "atan2 y x * (180 / pi) \<le> pi * (180 / pi)"
    using b p by (intro mult_right_mono) auto
  moreover have "(- pi) * (180 / pi) \<le> atan2 y x * (180 / pi)"
    using b p by (intro mult_right_mono) auto
  ultimately show ?thesis using p by simp
qed

lemma js_rem_360:
  assumes "0 < a"
  shows "0 \<le> js_rem a 360 \<and> js_rem a 360 < 360
         \<and> js_rem a 360 = a - 360 * of_int \<lfloor>a / 360\<rfloor>"
proof -
  have lo: "of_int \<lfloor>a / 360\<rfloor> \<le> a / 360" by (rule of_int_floor_le)
  have hi: "a / 360 < of_int \<lfloor>a / 360\<rfloor> + 1" by (rule real_of_int_floor_add_one_gt)
  have e: "js_rem a 360 = a - 360 * of_int \<lfloor>a / 360\<rfloor>"
    using assms by (simp add: js_rem_def)
  from lo hi e show ?thesis by (simp add: field_simps)
qed

lemma toHeading_range: "0 \<le> toHeading x y \<and> toHeading x y < 360"
proof -
  have "0 < atan2 (- y) x * (180 / pi) + 360"
    using degrees_bounds [of "- y" x] by linarith
  then show ?thesis
    unfolding toHeading_def using js_rem_360 by blast
qed


lemma shortestDelta_cases:
  "shortestDelta p a = a - p \<or> shortestDelta p a = a - p - 360
   \<or> shortestDelta p a = a - p + 360"
  by (auto simp: shortestDelta_def Let_def)

lemma track_turns:
  assumes "isFirstUpdate s \<or> turns s" "0 \<le> a" "a < 360"
  shows "turns (track a s)"
proof (cases "isFirstUpdate s")
  case True
  have "a = a + 360 * of_int (0 :: int)" by simp
  then have "\<exists>k :: int. a = a + 360 * of_int k" by (rule exI)
  with True assms(2,3) show ?thesis
    by (simp add: track_def turns_def Let_def)
next
  case False
  with assms(1) have t: "turns s" by simp
  then obtain k :: int where k: "cumulativeRotation s = heading s + 360 * of_int k"
    and pv: "previousAngle s = heading s"
    by (auto simp: turns_def)
  let ?d = "shortestDelta (previousAngle s) a"
  have c: "cumulativeRotation (track a s) = cumulativeRotation s + ?d"
    and h: "heading (track a s) = a" and pa: "previousAngle (track a s) = a"
    and f: "\<not> isFirstUpdate (track a s)"
    using False by (simp_all add: track_def Let_def)
  have "\<exists>j :: int. cumulativeRotation s + ?d = a + 360 * of_int j"
  proof -
    consider "?d = a - previousAngle s" | "?d = a - previousAngle s - 360"
      | "?d = a - previousAngle s + 360"
      using shortestDelta_cases by blast
    then show ?thesis
    proof cases
      case 1
      then have "cumulativeRotation s + ?d = a + 360 * of_int k" using k pv by simp
      then show ?thesis by (rule exI)
    next
      case 2
      then have "cumulativeRotation s + ?d = a + 360 * of_int (k - 1)" using k pv by simp
      then show ?thesis by (rule exI)
    next
      case 3
      then have "cumulativeRotation s + ?d = a + 360 * of_int (k + 1)" using k pv by simp
      then show ?thesis by (rule exI)
    qed
  qed
  with c h pa f assms(2,3) show ?thesis by (simp add: turns_def)
qed

lemma onSamples_turns:
  "isFirstUpdate s \<or> turns s \<Longrightarrow> samples \<noteq> [] \<Longrightarrow> turns (onSamples samples s)"
proof (induction samples arbitrary: s)
  case Nil
  then show ?case by simp
next
  case (Cons xy rest)
  have t: "turns (onSample xy s)"
    unfolding onSample_def using Cons.prems(1) toHeading_range by (intro track_turns) auto
  show ?case
  proof (cases "rest = []")
    case True
    with t show ?thesis by (simp add: onSamples_def)
  next
    case False
    from t have "isFirstUpdate (onSample xy s) \<or> turns (onSample xy s)" by simp
    from Cons.IH [OF this False] show ?thesis by (simp add: onSamples_def)
  qed
qed

lemma turns_representative:
  assumes "turns s"
  shows "cumulativeRotation s - 360 * of_int \<lfloor>cumulativeRotation s / 360\<rfloor> = heading s"
proof -
  from assms obtain k :: int where k: "cumulativeRotation s = heading s + 360 * of_int k"
    and r: "0 \<le> heading s" "heading s < 360"
    by (auto simp: turns_def)
  have "cumulativeRotation s / 360 = heading s / 360 + of_int k" using k by simp
  then have "\<lfloor>cumulativeRotation s / 360\<rfloor> = \<lfloor>heading s / 360\<rfloor> + k"
    by (simp only: floor_add_int)
  moreover have "\<lfloor>heading s / 360\<rfloor> = 0" using r by (simp add: floor_eq_iff)
  ultimately show ?thesis using k by simp
qed



subsection \<open>Rounding\<close>

text \<open>
  Some values of \<open>round64\<close>, as every implementation of binary64 gives them: the numbers
  nearest to 0.1 and to 0.3, the sum \<open>0.1 + 0.2\<close>, which is not the number nearest to 0.3,
  and two ties above \<open>2 ^ 53\<close>.
\<close>

lemma round64_examples:
  "round64 (1 / 10) = 3602879701896397 / 2 ^ 55
   \<and> round64 (3 / 10) = 5404319552844595 / 2 ^ 54
   \<and> round64 (round64 (1 / 10) + round64 (2 / 10)) = 5404319552844596 / 2 ^ 54
   \<and> round64 (2 ^ 53 + 1) = 2 ^ 53 \<and> round64 (2 ^ 53 + 3) = 2 ^ 53 + 4"
  by code_simp

lemma ilog2_lower: "0 < x \<Longrightarrow> 2 powi (ilog2 x) \<le> x"
proof (cases "1 \<le> x")
  case True
  then have p: "0 < \<lfloor>x\<rfloor>" by simp
  from bitlen_bounds [OF p] have "(2::int) ^ nat (bitlen \<lfloor>x\<rfloor> - 1) \<le> \<lfloor>x\<rfloor>" by simp
  then have "real_of_int ((2::int) ^ nat (bitlen \<lfloor>x\<rfloor> - 1)) \<le> real_of_int \<lfloor>x\<rfloor>"
    by (simp only: of_int_le_iff)
  also have "\<dots> \<le> x" by (rule of_int_floor_le)
  finally have a: "(2::real) ^ nat (bitlen \<lfloor>x\<rfloor> - 1) \<le> x" by simp
  have "1 \<le> bitlen \<lfloor>x\<rfloor>" using p by (simp add: bitlen_alt_def)
  then have "(2::real) powi (bitlen \<lfloor>x\<rfloor> - 1) = 2 ^ nat (bitlen \<lfloor>x\<rfloor> - 1)"
    by (simp add: power_int_nonneg_exp)
  with a True show ?thesis by (simp add: ilog2_def)
next
  case False
  assume x: "0 < x"
  let ?c = "\<lceil>1 / x\<rceil> - 1"
  from False x have "1 < 1 / x" by simp
  then have c: "0 < ?c" by (simp add: less_ceiling_iff)
  from bitlen_bounds [OF c] have "?c < 2 ^ nat (bitlen ?c)" by simp
  then have "\<lceil>1 / x\<rceil> \<le> 2 ^ nat (bitlen ?c)" by simp
  then have "1 / x \<le> 2 ^ nat (bitlen ?c)" by (simp add: ceiling_le_iff)
  then have "1 \<le> 2 ^ nat (bitlen ?c) * x" using x by (simp add: field_simps)
  then have i: "inverse (2 ^ nat (bitlen ?c)) \<le> x" by (simp add: field_simps)
  have "0 \<le> bitlen ?c" by (rule bitlen_nonneg)
  then have "(2::real) powi (- bitlen ?c) = inverse (2 ^ nat (bitlen ?c))"
    by (simp only: power_int_minus power_int_nonneg_exp)
  with i False show ?thesis by (simp add: ilog2_def)
qed

lemma ilog2_upper: "0 < x \<Longrightarrow> x < 2 powi (ilog2 x + 1)"
proof (cases "1 \<le> x")
  case True
  then have p: "0 < \<lfloor>x\<rfloor>" by simp
  from bitlen_bounds [OF p] have "\<lfloor>x\<rfloor> < 2 ^ nat (bitlen \<lfloor>x\<rfloor>)" by simp
  then have "\<lfloor>x\<rfloor> + 1 \<le> 2 ^ nat (bitlen \<lfloor>x\<rfloor>)" by simp
  then have "real_of_int (\<lfloor>x\<rfloor> + 1) \<le> real_of_int (2 ^ nat (bitlen \<lfloor>x\<rfloor>))"
    by (simp only: of_int_le_iff)
  then have "real_of_int \<lfloor>x\<rfloor> + 1 \<le> 2 ^ nat (bitlen \<lfloor>x\<rfloor>)" by simp
  moreover have "x < real_of_int \<lfloor>x\<rfloor> + 1" by linarith
  ultimately have a: "x < 2 ^ nat (bitlen \<lfloor>x\<rfloor>)" by linarith
  have "(2::real) powi (bitlen \<lfloor>x\<rfloor>) = 2 ^ nat (bitlen \<lfloor>x\<rfloor>)"
    by (simp add: power_int_nonneg_exp bitlen_nonneg)
  with a True show ?thesis by (simp add: ilog2_def)
next
  case False
  assume x: "0 < x"
  let ?c = "\<lceil>1 / x\<rceil> - 1"
  from False x have "1 < 1 / x" by simp
  then have c: "0 < ?c" by (simp add: less_ceiling_iff)
  have b1: "1 \<le> bitlen ?c" using c by (simp add: bitlen_alt_def)
  from bitlen_bounds [OF c] have "2 ^ nat (bitlen ?c - 1) \<le> ?c" by simp
  then have "real_of_int (2 ^ nat (bitlen ?c - 1)) \<le> real_of_int ?c"
    by (simp only: of_int_le_iff)
  moreover have "real_of_int ?c < 1 / x" using ceiling_correct [of "1 / x"] by simp
  ultimately have "2 ^ nat (bitlen ?c - 1) < 1 / x" by simp
  then have "2 ^ nat (bitlen ?c - 1) * x < 1" using x by (simp add: field_simps)
  then have i: "x < inverse (2 ^ nat (bitlen ?c - 1))" by (simp add: field_simps)
  have "(2::real) powi (- (bitlen ?c - 1)) = inverse (2 ^ nat (bitlen ?c - 1))"
    using b1 by (simp only: power_int_minus) (simp add: power_int_nonneg_exp)
  moreover have "- bitlen ?c + 1 = - (bitlen ?c - 1)" by simp
  ultimately show ?thesis using i False by (simp add: ilog2_def)
qed

lemma roundHalfEven_error: "\<bar>real_of_int (roundHalfEven y) - y\<bar> \<le> 1 / 2"
proof -
  have "real_of_int \<lfloor>y\<rfloor> \<le> y" "y < real_of_int \<lfloor>y\<rfloor> + 1" by linarith+
  then show ?thesis by (auto simp: roundHalfEven_def Let_def)
qed

lemma ulp64_pos: "0 < ulp64 x"
  by (simp add: ulp64_def)

lemma round64_error: "\<bar>round64 x - x\<bar> \<le> ulp64 x / 2"
proof (cases "x = 0")
  case True
  then show ?thesis using ulp64_pos [of x] by (simp add: round64_def)
next
  case False
  let ?u = "ulp64 x"
  have u: "0 < ?u" by (rule ulp64_pos)
  have "\<bar>real_of_int (roundHalfEven (x / ?u)) - x / ?u\<bar> * ?u \<le> 1 / 2 * ?u"
    using roundHalfEven_error [of "x / ?u"] u by (intro mult_right_mono) auto
  moreover have "\<bar>real_of_int (roundHalfEven (x / ?u)) - x / ?u\<bar> * ?u
                   = \<bar>real_of_int (roundHalfEven (x / ?u)) * ?u - x\<bar>"
  proof -
    have "\<bar>real_of_int (roundHalfEven (x / ?u)) - x / ?u\<bar> * ?u
            = \<bar>(real_of_int (roundHalfEven (x / ?u)) - x / ?u) * ?u\<bar>"
      using u by (simp add: abs_mult)
    also have "(real_of_int (roundHalfEven (x / ?u)) - x / ?u) * ?u
                 = real_of_int (roundHalfEven (x / ?u)) * ?u - x"
      using u by (simp add: field_simps)
    finally show ?thesis .
  qed
  ultimately show ?thesis using False by (simp add: round64_def)
qed

lemma round64_near:
  assumes "\<bar>x\<bar> \<le> 2 powi k" and "- 1022 \<le> k"
  shows "\<bar>round64 x - x\<bar> \<le> 2 powi (k - 53)"
proof (cases "x = 0")
  case True
  then show ?thesis by (simp add: round64_def)
next
  case False
  then have p: "0 < \<bar>x\<bar>" by simp
  have "ilog2 \<bar>x\<bar> \<le> k"
  proof (rule ccontr)
    assume "\<not> ilog2 \<bar>x\<bar> \<le> k"
    then have "k + 1 \<le> ilog2 \<bar>x\<bar>" by simp
    then have "(2::real) powi (k + 1) \<le> 2 powi (ilog2 \<bar>x\<bar>)"
      by (intro power_int_increasing) auto
    also have "\<dots> \<le> \<bar>x\<bar>" using p by (rule ilog2_lower)
    finally have "(2::real) powi (k + 1) \<le> 2 powi k" using assms(1) by simp
    moreover have "(2::real) powi k < 2 powi (k + 1)"
      by (intro power_int_strict_increasing) auto
    ultimately show False by simp
  qed
  with assms(2) have "max (ilog2 \<bar>x\<bar>) (- 1022) - 52 \<le> k - 52" by simp
  then have "ulp64 x \<le> 2 powi (k - 52)"
    unfolding ulp64_def by (intro power_int_increasing) auto
  moreover have "(2::real) powi (k - 52) = 2 * 2 powi (k - 53)"
  proof -
    have "k - 52 = (k - 53) + 1" by simp
    then have "(2::real) powi (k - 52) = 2 powi ((k - 53) + 1)" by simp
    also have "\<dots> = 2 powi (k - 53) * 2" by (subst power_int_add) auto
    finally show ?thesis by simp
  qed
  ultimately show ?thesis using round64_error [of x] by simp
qed

lemma round64_near_256: "\<bar>x\<bar> \<le> 256 \<Longrightarrow> \<bar>round64 x - x\<bar> \<le> 1 / 2 ^ 45"
  using round64_near [of x 8] by (simp add: power_int_minus field_simps)

lemma round64_near_512: "\<bar>x\<bar> \<le> 512 \<Longrightarrow> \<bar>round64 x - x\<bar> \<le> 1 / 2 ^ 44"
  using round64_near [of x 9] by (simp add: power_int_minus field_simps)

lemma near_bound: "\<bar>r - x\<bar> \<le> e \<Longrightarrow> \<bar>x\<bar> \<le> b \<Longrightarrow> \<bar>r\<bar> \<le> b + (e :: real)"
  by linarith

lemma near_trans: "\<bar>r - x\<bar> \<le> e \<Longrightarrow> \<bar>x - y\<bar> \<le> f \<Longrightarrow> \<bar>r - y\<bar> \<le> e + (f :: real)"
  by linarith

lemma near_sum:
  "\<bar>r - (c + d)\<bar> \<le> e \<Longrightarrow> \<bar>c - p\<bar> \<le> f \<Longrightarrow> \<bar>d - q\<bar> \<le> g
   \<Longrightarrow> \<bar>r - (p + q)\<bar> \<le> e + f + (g :: real)"
  by linarith

lemma near_shift:
  "\<bar>x - y\<bar> \<le> e \<Longrightarrow> \<bar>(x + c) - (y + c)\<bar> \<le> (e :: real)"
  "\<bar>x - y\<bar> \<le> e \<Longrightarrow> \<bar>(x - c) - (y - c)\<bar> \<le> (e :: real)"
  by linarith+

lemma shortestDelta64_near:
  assumes "0 \<le> p" "p < 360" "0 \<le> a" "a < 360"
  shows "\<bar>shortestDelta64 p a\<bar> \<le> 361 / 2
         \<and> (\<exists>j :: int. \<bar>shortestDelta64 p a - (a - p + 360 * of_int j)\<bar> \<le> 1 / 2 ^ 43)"
proof -
  let ?t = "a - p"
  let ?d0 = "round64 ?t"
  have c: "180 + (1::real) / 2 ^ 45 \<le> 361 / 2"
    "(1::real) / 2 ^ 45 + 1 / 2 ^ 44 \<le> 1 / 2 ^ 43" "(1::real) / 2 ^ 44 \<le> 1 / 2 ^ 43"
    by simp_all
  have t: "\<bar>?t\<bar> \<le> 512" "\<bar>?t\<bar> \<le> 360" using assms by linarith+
  have e0: "\<bar>?d0 - ?t\<bar> \<le> 1 / 2 ^ 44" using t(1) by (rule round64_near_512)
  have "360 + (1::real) / 2 ^ 44 \<le> 361" by simp
  with near_bound [OF e0 t(2)] have b0: "\<bar>?d0\<bar> \<le> 361" by (rule order_trans)
  consider (hi) "180 < ?d0" | (lo) "\<not> 180 < ?d0" "?d0 < - 180"
    | (mid) "\<not> 180 < ?d0" "\<not> ?d0 < - 180" by blast
  then show ?thesis
  proof cases
    case hi
    then have d: "shortestDelta64 p a = round64 (?d0 - 360)"
      by (simp add: shortestDelta64_def Let_def)
    have r: "\<bar>?d0 - 360\<bar> \<le> 180" using hi b0 by linarith
    then have "\<bar>?d0 - 360\<bar> \<le> 256" by linarith
    then have e1: "\<bar>round64 (?d0 - 360) - (?d0 - 360)\<bar> \<le> 1 / 2 ^ 45"
      by (rule round64_near_256)
    from near_trans [OF e1 near_shift(2) [OF e0]] c(2)
    have "\<bar>round64 (?d0 - 360) - (?t - 360)\<bar> \<le> 1 / 2 ^ 43" by (rule order_trans)
    moreover have "?t - 360 = a - p + 360 * of_int (- 1 :: int)" by simp
    ultimately have "\<bar>round64 (?d0 - 360) - (a - p + 360 * of_int (- 1 :: int))\<bar> \<le> 1 / 2 ^ 43"
      by (simp only:)
    then have "\<exists>j :: int. \<bar>round64 (?d0 - 360) - (a - p + 360 * of_int j)\<bar> \<le> 1 / 2 ^ 43"
      by (rule exI)
    moreover from near_bound [OF e1 r] c(1) have "\<bar>round64 (?d0 - 360)\<bar> \<le> 361 / 2"
      by (rule order_trans)
    ultimately show ?thesis unfolding d by (rule_tac conjI)
  next
    case lo
    then have d: "shortestDelta64 p a = round64 (?d0 + 360)"
      by (simp add: shortestDelta64_def Let_def)
    have r: "\<bar>?d0 + 360\<bar> \<le> 180" using lo b0 by linarith
    then have "\<bar>?d0 + 360\<bar> \<le> 256" by linarith
    then have e1: "\<bar>round64 (?d0 + 360) - (?d0 + 360)\<bar> \<le> 1 / 2 ^ 45"
      by (rule round64_near_256)
    from near_trans [OF e1 near_shift(1) [OF e0]] c(2)
    have "\<bar>round64 (?d0 + 360) - (?t + 360)\<bar> \<le> 1 / 2 ^ 43" by (rule order_trans)
    moreover have "?t + 360 = a - p + 360 * of_int (1 :: int)" by simp
    ultimately have "\<bar>round64 (?d0 + 360) - (a - p + 360 * of_int (1 :: int))\<bar> \<le> 1 / 2 ^ 43"
      by (simp only:)
    then have "\<exists>j :: int. \<bar>round64 (?d0 + 360) - (a - p + 360 * of_int j)\<bar> \<le> 1 / 2 ^ 43"
      by (rule exI)
    moreover from near_bound [OF e1 r] c(1) have "\<bar>round64 (?d0 + 360)\<bar> \<le> 361 / 2"
      by (rule order_trans)
    ultimately show ?thesis unfolding d by (rule_tac conjI)
  next
    case mid
    then have d: "shortestDelta64 p a = ?d0"
      by (simp add: shortestDelta64_def Let_def)
    from e0 c(3) have "\<bar>?d0 - ?t\<bar> \<le> 1 / 2 ^ 43" by (rule order_trans)
    moreover have "?t = a - p + 360 * of_int (0 :: int)" by simp
    ultimately have "\<bar>?d0 - (a - p + 360 * of_int (0 :: int))\<bar> \<le> 1 / 2 ^ 43" by (simp only:)
    then have "\<exists>j :: int. \<bar>?d0 - (a - p + 360 * of_int j)\<bar> \<le> 1 / 2 ^ 43"
      by (rule exI)
    moreover have "\<bar>?d0\<bar> \<le> 361 / 2" using mid by linarith
    ultimately show ?thesis unfolding d by (rule_tac conjI)
  qed
qed

lemma track64_first:
  assumes "isFirstUpdate s" "0 \<le> a" "a < 360"
  shows "drift u 0 (track64 a s)"
proof -
  have "\<bar>a - (a + 360 * of_int (0 :: int))\<bar> \<le> real 0 * u" by simp
  then have "\<exists>k :: int. \<bar>a - (a + 360 * of_int k)\<bar> \<le> real 0 * u" by (rule exI)
  with assms show ?thesis by (simp add: track64_def drift_def Let_def)
qed

lemma track64_drift:
  assumes "drift (2 powi (int j - 43)) n s" "n < 2 ^ j" "1 \<le> j" "0 \<le> a" "a < 360"
    and "j \<le> 43"
  shows "drift (2 powi (int j - 43)) (Suc n) (track64 a s)"
proof -
  let ?u = "(2::real) powi (int j - 43)"
  let ?e = "(2::real) powi (int j - 44)"
  from assms(1) obtain k :: int where
    f: "\<not> isFirstUpdate s" and pv: "previousAngle s = heading s"
    and h: "0 \<le> heading s" "heading s < 360"
    and m: "\<bar>cumulativeRotation s\<bar> \<le> 360 + 181 * real n"
    and k: "\<bar>cumulativeRotation s - (heading s + 360 * of_int k)\<bar> \<le> real n * ?u"
    by (auto simp: drift_def)
  let ?c = "cumulativeRotation s"
  let ?d = "shortestDelta64 (heading s) a"
  let ?r = "round64 (?c + ?d)"
  from shortestDelta64_near [OF h assms(4,5)] obtain i :: int where
    d: "\<bar>?d\<bar> \<le> 361 / 2" and i: "\<bar>?d - (a - heading s + 360 * of_int i)\<bar> \<le> 1 / 2 ^ 43"
    by blast
  have u: "?u = 2 * ?e"
  proof -
    have "int j - 43 = (int j - 44) + 1" by simp
    then have "?u = 2 powi ((int j - 44) + 1)" by simp
    also have "\<dots> = ?e * 2" by (subst power_int_add) auto
    finally show ?thesis by simp
  qed
  have small: "1 / 2 ^ 43 \<le> ?e"
  proof -
    have "(2::real) powi (- 43) \<le> 2 powi (int j - 44)"
      using assms(3) by (intro power_int_increasing) auto
    then show ?thesis by (simp add: power_int_minus field_simps)
  qed
  have two: "(2::real) \<le> 2 ^ j"
  proof -
    have "(2::real) ^ 1 \<le> 2 ^ j" using assms(3) by (intro power_increasing) auto
    then show ?thesis by simp
  qed
  have n: "real n + 1 \<le> 2 ^ j"
  proof -
    from assms(2) have "Suc n \<le> 2 ^ j" by simp
    then have "real (Suc n) \<le> real (2 ^ j)" by (simp only: of_nat_le_iff)
    then show ?thesis by simp
  qed
  have big: "(2::real) powi (int j + 9) = 512 * 2 ^ j"
    by (simp add: power_int_add)
  have sn: "real (Suc n) = real n + 1" by simp
  have s: "\<bar>?c + ?d\<bar> \<le> 360 + 181 * real n + 361 / 2" using m d by linarith
  also have "\<dots> \<le> 512 * 2 ^ j" using n two by linarith
  finally have "\<bar>?c + ?d\<bar> \<le> 2 powi (int j + 9)" by (simp only: big)
  from round64_near [OF this] have e: "\<bar>?r - (?c + ?d)\<bar> \<le> ?e" by simp
  have st: "cumulativeRotation (track64 a s) = ?r"
    "heading (track64 a s) = a" "previousAngle (track64 a s) = a"
    "\<not> isFirstUpdate (track64 a s)"
    using f pv by (simp_all add: track64_def Let_def)
  have e1: "?e \<le> 1 / 2"
  proof -
    have "(2::real) powi (int j - 44) \<le> 2 powi (- 1)"
      using assms(6) by (intro power_int_increasing) auto
    then show ?thesis by (simp add: power_int_minus)
  qed
  have g1: "\<And>e x :: real. e \<le> 1 / 2 \<Longrightarrow> 360 + 181 * x + 361 / 2 + e \<le> 360 + 181 * (x + 1)"
    by (simp add: algebra_simps)
  have g2: "\<And>e v w :: real. w \<le> e \<Longrightarrow> e + v + w \<le> v + 2 * e"
    by linarith
  have "360 + 181 * real n + 361 / 2 + ?e \<le> 360 + 181 * real (Suc n)"
    unfolding sn using e1 by (rule g1)
  with near_bound [OF e s] have m': "\<bar>?r\<bar> \<le> 360 + 181 * real (Suc n)"
    by (rule order_trans)
  have "\<bar>?r - (a + 360 * of_int (k + i))\<bar> \<le> real (Suc n) * ?u"
  proof -
    from near_sum [OF e k i]
    have "\<bar>?r - (heading s + 360 * of_int k + (a - heading s + 360 * of_int i))\<bar>
            \<le> ?e + real n * ?u + 1 / 2 ^ 43" .
    moreover have "heading s + 360 * of_int k + (a - heading s + 360 * of_int i)
                     = a + 360 * of_int (k + i)" by simp
    ultimately have "\<bar>?r - (a + 360 * of_int (k + i))\<bar> \<le> ?e + real n * ?u + 1 / 2 ^ 43"
      by (simp only:)
    also have "\<dots> \<le> real n * ?u + 2 * ?e" using small by (rule g2)
    also have "\<dots> = real (Suc n) * ?u" unfolding sn u by (simp add: algebra_simps)
    finally show ?thesis .
  qed
  then have "\<exists>l :: int. \<bar>?r - (a + 360 * of_int l)\<bar> \<le> real (Suc n) * ?u"
    by (rule exI)
  with st m' assms(4,5) show ?thesis unfolding drift_def by simp
qed

lemma onHeadings64_snoc: "onHeadings64 (hs @ [a]) s = track64 a (onHeadings64 hs s)"
  by (simp add: onHeadings64_def)

lemma onHeadings64_drift:
  assumes "\<forall>h \<in> set (a # hs). 0 \<le> h \<and> h < 360" and "length hs \<le> 2 ^ j"
    and "1 \<le> j" and "j \<le> 43"
  shows "drift (2 powi (int j - 43)) (length hs) (onHeadings64 (a # hs) subscribed)
         \<and> heading (onHeadings64 (a # hs) subscribed) = last (a # hs)"
  using assms(1,2)
proof (induction hs rule: rev_induct)
  case Nil
  then have "drift (2 powi (int j - 43)) 0 (track64 a subscribed)"
    by (intro track64_first) (simp_all add: subscribed_def)
  moreover have "heading (track64 a subscribed) = a" by (simp add: track64_def Let_def)
  ultimately show ?case by (simp add: onHeadings64_def)
next
  case (snoc x xs)
  from snoc.prems have p: "\<forall>h \<in> set (a # xs). 0 \<le> h \<and> h < 360" "length xs \<le> 2 ^ j"
    "length xs < 2 ^ j" "0 \<le> x" "x < 360"
    by auto
  from snoc.IH [OF p(1,2)]
  have i: "drift (2 powi (int j - 43)) (length xs) (onHeadings64 (a # xs) subscribed)" by simp
  have e: "onHeadings64 (a # xs @ [x]) subscribed = track64 x (onHeadings64 (a # xs) subscribed)"
    using onHeadings64_snoc [of "a # xs" x subscribed] by simp
  from track64_drift [OF i p(3) assms(3) p(4,5) assms(4)]
  have "drift (2 powi (int j - 43)) (Suc (length xs)) (onHeadings64 (a # xs @ [x]) subscribed)"
    unfolding e .
  moreover have "heading (onHeadings64 (a # xs @ [x]) subscribed) = x"
    unfolding e by (simp add: track64_def Let_def)
  ultimately show ?case by simp
qed

lemma onSamples_heading:
  "samples \<noteq> [] \<Longrightarrow>
   heading (onSamples samples s) = toHeading (fst (last samples)) (snd (last samples))"
proof (induction samples rule: rev_induct)
  case Nil
  then show ?case by simp
next
  case (snoc xy rest)
  have "onSamples (rest @ [xy]) s = onSample xy (onSamples rest s)"
    by (simp add: onSamples_def)
  then show ?case by (simp add: onSample_def track_def Let_def)
qed

text \<open>
  Claim C10, as the code has it.  After every sample, the first one included, the
  heading is the raw heading of that sample and the previous angle of the next step.
  After the first sample the cumulative rotation is the heading itself.  Every later
  sample adds the difference of the headings plus a multiple of 360, and each of these
  operations is rounded to binary64: for raw headings in the range from 0 to 360, after
  the first sample and \<open>n\<close> more, \<open>n\<close> at most \<open>2 ^ j\<close> for a \<open>j\<close> from 1 to 43, the
  cumulative rotation differs from the heading plus a multiple of 360 by at most
  \<open>n * 2 ^ (j - 43)\<close>, which is less than a millionth of a degree in the first 2048
  samples.  In exact arithmetic the congruence is exact: there the heading is the one
  computed from the last sample, it is in the range from 0 to 360, and it is the
  representative of the cumulative rotation in that range.
\<close>

theorem C10_rotation_congruent_heading:
  assumes "\<forall>h \<in> set (a # hs). 0 \<le> h \<and> h < 360" and "length hs \<le> 2 ^ j"
    and "1 \<le> j" and "j \<le> 43"
  shows "heading (onHeadings64 (a # hs) subscribed) = last (a # hs)
         \<and> previousAngle (onHeadings64 (a # hs) subscribed) = last (a # hs)
         \<and> cumulativeRotation (onHeadings64 [a] subscribed) = a
         \<and> (\<exists>k :: int. \<bar>cumulativeRotation (onHeadings64 (a # hs) subscribed)
                           - (last (a # hs) + 360 * of_int k)\<bar>
                         \<le> real (length hs) * 2 powi (int j - 43))
         \<and> (samples \<noteq> [] \<longrightarrow>
              heading (onSamples samples subscribed)
                = toHeading (fst (last samples)) (snd (last samples))
              \<and> 0 \<le> heading (onSamples samples subscribed)
              \<and> heading (onSamples samples subscribed) < 360
              \<and> (\<exists>k :: int. cumulativeRotation (onSamples samples subscribed)
                     = heading (onSamples samples subscribed) + 360 * of_int k)
              \<and> cumulativeRotation (onSamples samples subscribed)
                  - 360 * of_int \<lfloor>cumulativeRotation (onSamples samples subscribed) / 360\<rfloor>
                = heading (onSamples samples subscribed))"
proof -
  let ?s = "onHeadings64 (a # hs) subscribed"
  from onHeadings64_drift [OF assms]
  have d: "drift (2 powi (int j - 43)) (length hs) ?s"
    and h: "heading ?s = last (a # hs)" by simp_all
  from d have p: "previousAngle ?s = heading ?s"
    and k: "\<exists>k :: int. \<bar>cumulativeRotation ?s - (heading ?s + 360 * of_int k)\<bar>
                          \<le> real (length hs) * 2 powi (int j - 43)"
    by (simp_all add: drift_def)
  have f: "cumulativeRotation (onHeadings64 [a] subscribed) = a"
    by (simp add: onHeadings64_def track64_def subscribed_def Let_def)
  have x: "heading (onSamples samples subscribed)
             = toHeading (fst (last samples)) (snd (last samples))
           \<and> 0 \<le> heading (onSamples samples subscribed)
           \<and> heading (onSamples samples subscribed) < 360
           \<and> (\<exists>k :: int. cumulativeRotation (onSamples samples subscribed)
                  = heading (onSamples samples subscribed) + 360 * of_int k)
           \<and> cumulativeRotation (onSamples samples subscribed)
               - 360 * of_int \<lfloor>cumulativeRotation (onSamples samples subscribed) / 360\<rfloor>
             = heading (onSamples samples subscribed)"
    if ne: "samples \<noteq> []"
  proof -
    have "isFirstUpdate subscribed \<or> turns subscribed" by (simp add: subscribed_def)
    from onSamples_turns [OF this ne] have t: "turns (onSamples samples subscribed)" .
    from t turns_representative [OF t] onSamples_heading [OF ne, of subscribed]
    show ?thesis by (simp add: turns_def)
  qed
  from h p k f x show ?thesis by (simp only:) blast
qed

theorem C10_rotation_congruent_heading_witness:
  "heading (onHeadings64 [200, 19, 198 + 1 / 2 ^ 44] subscribed) = 198 + 1 / 2 ^ 44
   \<and> cumulativeRotation (onHeadings64 [200, 19, 198 + 1 / 2 ^ 44] subscribed) = 558
   \<and> (\<exists>k :: int. \<bar>cumulativeRotation (onHeadings64 [200, 19, 198 + 1 / 2 ^ 44] subscribed)
                     - (198 + 1 / 2 ^ 44 + 360 * of_int k)\<bar> \<le> 2 * 2 powi (- 42))
   \<and> cumulativeRotation (onSamples [(0, 1), (1, 0), (0, - 1)] subscribed)
       - 360 * of_int \<lfloor>cumulativeRotation (onSamples [(0, 1), (1, 0), (0, - 1)] subscribed) / 360\<rfloor>
     = heading (onSamples [(0, 1), (1, 0), (0, - 1)] subscribed)"
proof -
  have r: "\<forall>h \<in> set [200, 19, 198 + 1 / 2 ^ 44 :: real]. 0 \<le> h \<and> h < 360"
    "length [19, 198 + 1 / 2 ^ 44 :: real] \<le> 2 ^ 1" "(1 :: nat) \<le> 1" "(1 :: nat) \<le> 43"
    "[(0, 1), (1, 0), (0 :: real, - 1 :: real)] \<noteq> []"
    by simp_all
  have c: "cumulativeRotation (onHeadings64 [200, 19, 198 + 1 / 2 ^ 44] subscribed) = 558"
    by code_simp
  from C10_rotation_congruent_heading [OF r(1-4), of "[(0, 1), (1, 0), (0, - 1)]"] r(5) c
  show ?thesis by simp
qed

text \<open>
  Claim C10 as it is stated fails in binary64: the congruence is not exact.  The raw
  headings 200, 19 and \<open>198 + 2 ^ - 44\<close> are binary64 values.  The listener adds 179
  and then \<open>179 + 2 ^ - 44\<close> to 200; the last sum, \<open>558 + 2 ^ - 44\<close>, lies halfway
  between two binary64 values and is rounded to 558, so the cumulative rotation modulo
  360 is 198 and not the heading.
\<close>

theorem C10_rounding_breaks_congruence:
  "round64 200 = 200 \<and> round64 19 = 19 \<and> round64 (198 + 1 / 2 ^ 44) = 198 + 1 / 2 ^ 44
   \<and> cumulativeRotation (onHeadings64 [200, 19, 198 + 1 / 2 ^ 44] subscribed) = 558
   \<and> heading (onHeadings64 [200, 19, 198 + 1 / 2 ^ 44] subscribed) = 198 + 1 / 2 ^ 44
   \<and> js_rem (cumulativeRotation (onHeadings64 [200, 19, 198 + 1 / 2 ^ 44] subscribed)) 360 = 198
   \<and> js_rem (cumulativeRotation (onHeadings64 [200, 19, 198 + 1 / 2 ^ 44] subscribed)) 360
       \<noteq> heading (onHeadings64 [200, 19, 198 + 1 / 2 ^ 44] subscribed)"
  by code_simp

section \<open>Properties of the level\<close>

text \<open>
  Claim C9.  After an accelerometer sample the two angles are the ones of lines 76 and
  77, in degrees, and \<open>isLevel\<close> holds exactly when both are strictly below 2 in absolute
  value: the angles 1.9 and 1.9 are level, the angles 2.1 and 0 are not, and neither is
  the boundary 2.
\<close>

theorem C9_level_threshold:
  "xAngle (levelSample accelX accelY s)
     = atan2 accelX (sqrt (accelY\<^sup>2 + 1)) * (180 / pi)
   \<and> yAngle (levelSample accelX accelY s)
     = atan2 accelY (sqrt (accelX\<^sup>2 + 1)) * (180 / pi)
   \<and> isLevel (levelSample accelX accelY s)
     = (\<bar>atan2 accelX (sqrt (accelY\<^sup>2 + 1)) * (180 / pi)\<bar> < 2
        \<and> \<bar>atan2 accelY (sqrt (accelX\<^sup>2 + 1)) * (180 / pi)\<bar> < 2)
   \<and> isLevel s = (\<bar>xAngle s\<bar> < 2 \<and> \<bar>yAngle s\<bar> < 2)
   \<and> isLevel \<lparr>xAngle = 1.9, yAngle = 1.9\<rparr>
   \<and> \<not> isLevel \<lparr>xAngle = 2.1, yAngle = 0\<rparr>
   \<and> \<not> isLevel \<lparr>xAngle = 2, yAngle = 0\<rparr>
   \<and> \<not> isLevel \<lparr>xAngle = 0, yAngle = - 2\<rparr>"
  by (simp add: levelSample_def isLevel_def Let_def power2_eq_square)

section \<open>Loops that run undisturbed\<close>

lemma drive_numeral:
  "drive r (numeral n) (Finished st) = ([], Finished st)"
  "drive r (numeral n) (Sleeping st d k) =
     (case drive r (pred_numeral n) (r k st) of
        (segs, s') \<Rightarrow> ((d, isFlashlightOn st) # segs, s'))"
  by (simp_all only: numeral_eq_Suc drive.simps)

lemma drive_Finished: "drive r n (Finished st) = ([], Finished st)"
  by (cases n) simp_all

lemma drive_add:
  "drive r (m + n) s =
     (case drive r m s of (a, s1) \<Rightarrow> case drive r n s1 of (b, s2) \<Rightarrow> (a @ b, s2))"
proof (induction m arbitrary: s)
  case 0
  show ?case by (simp split: prod.splits)
next
  case (Suc m)
  show ?case
  proof (cases s)
    case (Finished st)
    then show ?thesis by (simp add: drive_Finished)
  next
    case (Sleeping st d k)
    then show ?thesis by (simp add: Suc.IH split: prod.splits)
  qed
qed

lemma drive_length: "length (fst (drive r n s)) \<le> n"
proof (induction n arbitrary: s)
  case 0
  show ?case by simp
next
  case (Suc n)
  show ?case
  proof (cases s)
    case (Finished st)
    then show ?thesis by simp
  next
    case (Sleeping st d k)
    with Suc.IH [of "r k st"] show ?thesis by (auto split: prod.splits)
  qed
qed

lemma drive_short_finished:
  "length (fst (drive r n s)) < n \<Longrightarrow> isFinished (snd (drive r n s))"
proof (induction n arbitrary: s)
  case 0
  then show ?case by simp
next
  case (Suc n)
  show ?case
  proof (cases s)
    case (Finished st)
    then show ?thesis by simp
  next
    case (Sleeping st d k)
    with Suc.prems Suc.IH [of "r k st"] show ?thesis by (auto split: prod.splits)
  qed
qed

lemma drive_finished_stays:
  assumes "isFinished (snd (drive r m s))"
  shows "drive r (m + n) s = drive r m s"
proof -
  obtain a s1 where d: "drive r m s = (a, s1)" by (cases "drive r m s")
  with assms obtain st where "s1 = Finished st" by (cases s1) simp_all
  with d show ?thesis by (simp add: drive_add drive_Finished)
qed

lemma drive_prefix: "fst (drive r m s) = take m (fst (drive r (m + n) s))"
proof (cases "length (fst (drive r m s)) < m")
  case True
  then have "isFinished (snd (drive r m s))" by (rule drive_short_finished)
  then have "drive r (m + n) s = drive r m s" by (rule drive_finished_stays)
  with True show ?thesis by simp
next
  case False
  with drive_length [of r m s] have "length (fst (drive r m s)) = m" by simp
  then show ?thesis by (auto simp: drive_add split: prod.splits)
qed

section \<open>Properties of the SOS loop\<close>

lemmas sos_consts = SHORT_FLASH_def LONG_FLASH_def PAUSE_def PATTERN_PAUSE_def

lemmas sos_heads = sos_exit_def sos_after_dots2_def sos_dots2_def sos_after_dashes_def
  sos_dashes_def sos_after_dots1_def sos_dots1_def sos_while_def

lemma sos_round:
  assumes "sosActiveRef st"
  shows "drive sos_resume 18 (sos_dots1 0 st) = (sosCycle, sos_dots1 0 st)"
  using assms
  by (simp add: drive_numeral sos_heads sos_consts Let_def sosCycle_def sosGroup_def)

lemma drive_invariant:
  assumes step: "\<And>k st. I st \<Longrightarrow> I (stateOf (r k st))" and start: "I (stateOf s)"
  shows "I (stateOf (snd (drive r n s)))
         \<and> (\<forall>seg \<in> set (fst (drive r n s)). \<exists>st. I st \<and> snd seg = isFlashlightOn st)"
  using start
proof (induction n arbitrary: s)
  case 0
  then show ?case by simp
next
  case (Suc n)
  show ?case
  proof (cases s)
    case (Finished st)
    with Suc.prems show ?thesis by simp
  next
    case (Sleeping st d k)
    with Suc.prems have i: "I st" by simp
    from Suc.IH [OF step [OF i, of k]] i Sleeping show ?thesis
      by (auto split: prod.splits)
  qed
qed

lemma sos_rounds:
  assumes "sosActiveRef st"
  shows "drive sos_resume (18 * q) (sos_dots1 0 st)
         = (concat (replicate q sosCycle), sos_dots1 0 st)"
proof (induction q)
  case 0
  show ?case by simp
next
  case (Suc q)
  have "18 * Suc q = 18 + 18 * q" by simp
  then have "drive sos_resume (18 * Suc q) (sos_dots1 0 st)
             = drive sos_resume (18 + 18 * q) (sos_dots1 0 st)" by (rule arg_cong)
  also have "\<dots> = (sosCycle @ concat (replicate q sosCycle), sos_dots1 0 st)"
    by (simp only: drive_add sos_round [OF assms] Suc.IH prod.case)
  finally show ?case by simp
qed

lemma sos_running:
  assumes "sosActiveRef st"
  shows "fst (drive sos_resume n (sos_dots1 0 st))
           = concat (replicate (n div 18) sosCycle) @ take (n mod 18) sosCycle
         \<and> \<not> isFinished (snd (drive sos_resume n (sos_dots1 0 st)))"
proof -
  let ?S = "sos_dots1 0 st"
  let ?r = "n mod 18"
  have r: "?r + (18 - ?r) = 18" by simp
  have S: "\<not> isFinished ?S" using assms by (simp add: sos_dots1_def)
  have p: "fst (drive sos_resume ?r ?S) = take ?r sosCycle"
    using drive_prefix [of sos_resume ?r ?S "18 - ?r"]
    by (simp only: r sos_round [OF assms] fst_conv)
  have f: "\<not> isFinished (snd (drive sos_resume ?r ?S))"
  proof
    assume "isFinished (snd (drive sos_resume ?r ?S))"
    then have "drive sos_resume (?r + (18 - ?r)) ?S = drive sos_resume ?r ?S"
      by (rule drive_finished_stays)
    then have "drive sos_resume ?r ?S = (sosCycle, ?S)"
      by (simp only: r sos_round [OF assms])
    then have "snd (drive sos_resume ?r ?S) = ?S" by simp
    with \<open>isFinished (snd (drive sos_resume ?r ?S))\<close> S show False by simp
  qed
  have "n = 18 * (n div 18) + ?r" by simp
  then have "drive sos_resume n ?S = drive sos_resume (18 * (n div 18) + ?r) ?S"
    by (rule arg_cong)
  also have "\<dots> = (concat (replicate (n div 18) sosCycle) @ fst (drive sos_resume ?r ?S),
                    snd (drive sos_resume ?r ?S))"
    by (simp only: drive_add sos_rounds [OF assms] prod.case split: prod.splits) simp
  finally show ?thesis using p f by simp
qed

lemma sos_cancelled_finishes:
  "\<not> sosActiveRef st \<Longrightarrow> isFinished (snd (drive sos_resume 2 (Sleeping st d a)))"
  by (cases a) (simp_all add: drive_numeral sos_heads Let_def)

lemma sos_cancelled_time:
  "\<not> sosActiveRef st \<Longrightarrow>
   sum_list (map fst (fst (drive sos_resume 2 (Sleeping st (sos_delay a) a)))) \<le> 800"
  by (cases a) (simp_all add: drive_numeral sos_heads sos_consts Let_def)

lemma sos_cancelled_state:
  "stateOf (sos_resume a (stopSOS st)) = stopSOS st"
  by (cases a) (simp_all add: sos_heads stopSOS_def Let_def)

text \<open>
  Claim C5.  With the permission granted, \<open>startSOS\<close> shows no alert and its loop,
  left alone, sleeps through the SOS cycle again and again: the first \<open>n\<close> segments are
  whole cycles followed by the beginning of the next one, for every \<open>n\<close>, and the loop
  has not returned.  The cycle is three short pulses, three long ones and three short
  ones (200 ms and 600 ms of light) with 200 ms between the pulses of a group and none
  after its last pulse, 400 ms between the groups and 800 ms before the repetition.
  Once \<open>stopSOS\<close> has been called the loop returns when its timer has fired twice at
  most.
\<close>

theorem C5_sos_pattern:
  assumes "granted st"
  shows "fst (startSOS st) = None
         \<and> fst (drive sos_resume n (snd (startSOS st)))
             = concat (replicate (n div 18) sosCycle) @ take (n mod 18) sosCycle
         \<and> \<not> isFinished (snd (drive sos_resume n (snd (startSOS st))))
         \<and> sosCycle
             = [(200, True), (200, False), (200, True), (200, False), (200, True), (400, False),
                (600, True), (200, False), (600, True), (200, False), (600, True), (400, False),
                (200, True), (200, False), (200, True), (200, False), (200, True), (800, False)]
         \<and> isFinished (snd (drive sos_resume 2 (Sleeping (stopSOS st') d a)))"
proof -
  let ?st2 = "(if isTransmitting st then stopMorse st else st)\<lparr>sosMode := True, sosActiveRef := True\<rparr>"
  have s: "startSOS st = (None, sos_dots1 0 ?st2)"
    using assms by (simp add: startSOS_def Let_def sos_while_def)
  have a: "sosActiveRef ?st2" by simp
  have c: "\<not> sosActiveRef (stopSOS st')" by (simp add: stopSOS_def)
  from sos_running [OF a, of n] sos_cancelled_finishes [OF c, of d a] s show ?thesis
    by (simp add: sosCycle_def sosGroup_def)
qed

theorem C5_sos_pattern_witness:
  "granted (ui (mounted True))
   \<and> fst (drive sos_resume 20 (snd (startSOS (ui (mounted True)))))
       = sosCycle @ [(200, True), (200, False)]
   \<and> \<not> isFinished (snd (drive sos_resume 20 (snd (startSOS (ui (mounted True))))))"
proof -
  have g: "granted (ui (mounted True))" by (simp add: mounted_def)
  from C5_sos_pattern [OF g, of 20] g show ?thesis
    by (simp add: sosCycle_def sosGroup_def)
qed

section \<open>Cancelled loops\<close>

lemma sos_cancelled_run:
  "stateOf (snd (drive sos_resume n (Sleeping (stopSOS st) d a))) = stopSOS st
   \<and> (\<forall>seg \<in> set (fst (drive sos_resume n (Sleeping (stopSOS st) d a))). \<not> snd seg)"
proof -
  let ?I = "\<lambda>s. s = stopSOS st"
  let ?S = "Sleeping (stopSOS st) d a"
  have inv: "?I (stateOf (snd (drive sos_resume n ?S)))
             \<and> (\<forall>seg \<in> set (fst (drive sos_resume n ?S)).
                  \<exists>s. ?I s \<and> snd seg = isFlashlightOn s)"
  proof (rule drive_invariant)
    fix k s
    assume "s = stopSOS st"
    then show "stateOf (sos_resume k s) = stopSOS st" by (simp add: sos_cancelled_state)
  next
    show "stateOf ?S = stopSOS st" by simp
  qed
  have "\<not> isFlashlightOn (stopSOS st)" by (simp add: stopSOS_def)
  with inv show ?thesis by auto
qed

lemma sos_heads_cancelled:
  "stateOf (sos_dots1 i (stopSOS st)) = stopSOS st"
  "stateOf (sos_dashes i (stopSOS st)) = stopSOS st"
  "stateOf (sos_dots2 i (stopSOS st)) = stopSOS st"
  by (simp_all add: sos_heads stopSOS_def)

lemmas morse_consts = T_def DOT_DURATION_def DASH_DURATION_def PAUSE_PARTS_def
  PAUSE_LETTERS_def PAUSE_WORDS_def

lemma morse_cancelled:
  assumes "\<not> morseActiveRef st"
  shows "morse_from WordLoop fr st = morse_finally st"
    and "morse_from AfterChars fr st =
           (if wordIndex fr + 1 < length (words fr)
            then Sleeping (st\<lparr>currentChar := Some ''(space)''\<rparr>) PAUSE_WORDS (AwaitWords, fr)
            else morse_finally st)"
    and "morse_from CharLoop fr st = morse_from AfterChars fr st"
    and "morse_from AfterSymbols fr st =
           (if charIndex fr + 1 < length (chars fr)
            then Sleeping st PAUSE_LETTERS (AwaitLetters, fr)
            else morse_from AfterChars (fr\<lparr>charIndex := charIndex fr + 1\<rparr>) st)"
    and "morse_from SymbolLoop fr st = morse_from AfterSymbols fr st"
  using assms by simp_all

lemma morse_cancelled_finishes:
  assumes "\<not> morseActiveRef st"
  shows "isFinished (snd (drive morse_resume 4 (Sleeping st d (aw, fr))))"
  using assms
  by (cases aw) (simp_all add: drive_numeral morse_cancelled Let_def morse_finally_def
      del: morse_from.simps)

lemma morse_cancelled_state:
  assumes "s = (stopMorse st)\<lparr>currentChar := c\<rparr>"
  shows "\<exists>c'. stateOf (morse_resume k s) = (stopMorse st)\<lparr>currentChar := c'\<rparr>"
proof -
  have r: "\<not> morseActiveRef s" using assms by (simp add: stopMorse_def)
  obtain aw fr where k: "k = (aw, fr)" by (cases k)
  have e: "\<And>c1. \<exists>c'. (stopMorse st)\<lparr>currentChar := c1\<rparr> = (stopMorse st)\<lparr>currentChar := c'\<rparr>"
    by blast
  show ?thesis
    unfolding k using r
    by (cases aw) (auto simp add: morse_cancelled Let_def morse_finally_def assms stopMorse_def
      simp del: morse_from.simps intro!: exI flash.equality)
qed

lemma morse_cancelled_run:
  "(\<exists>c. stateOf (snd (drive morse_resume n (Sleeping (stopMorse st) d k)))
           = (stopMorse st)\<lparr>currentChar := c\<rparr>)
   \<and> (\<forall>seg \<in> set (fst (drive morse_resume n (Sleeping (stopMorse st) d k))). \<not> snd seg)"
proof -
  let ?I = "\<lambda>s. \<exists>c. s = (stopMorse st)\<lparr>currentChar := c\<rparr>"
  let ?S = "Sleeping (stopMorse st) d k"
  have inv: "?I (stateOf (snd (drive morse_resume n ?S)))
             \<and> (\<forall>seg \<in> set (fst (drive morse_resume n ?S)).
                  \<exists>s. ?I s \<and> snd seg = isFlashlightOn s)"
  proof (rule drive_invariant)
    fix k s
    assume "?I s"
    then show "?I (stateOf (morse_resume k s))" using morse_cancelled_state by blast
  next
    have "stopMorse st = (stopMorse st)\<lparr>currentChar := None\<rparr>" by (simp add: stopMorse_def)
    then show "?I (stateOf ?S)" by (simp only: stateOf.simps) (rule exI)
  qed
  have off: "\<And>s. ?I s \<Longrightarrow> \<not> isFlashlightOn s" by (auto simp: stopMorse_def)
  from inv off show ?thesis by blast
qed

lemma morse_head_cancelled:
  "\<not> isFlashlightOn (stateOf (morse_from SymbolLoop fr (stopMorse st)))"
proof -
  have "\<not> morseActiveRef (stopMorse st)" by (simp add: stopMorse_def)
  then show ?thesis
    by (simp add: morse_cancelled morse_finally_def stopMorse_def del: morse_from.simps)
qed

lemma morse_cancelled_time:
  assumes "\<not> morseActiveRef st"
  shows "sum_list (map fst (fst (drive morse_resume 4
           (Sleeping st (morse_delay (aw, fr)) (aw, fr))))) \<le> 2800"
  using assms
  by (cases aw) (simp_all add: drive_numeral morse_cancelled Let_def morse_finally_def
      morse_consts del: morse_from.simps)

lemma sos_sleeps_delay:
  "sos_resume a st = Sleeping st' d a' \<Longrightarrow> d = sos_delay a'"
  by (cases a) (auto simp add: sos_heads Let_def split: if_splits)

lemma morse_from_delay:
  "morse_from pt fr st = Sleeping st' d k \<Longrightarrow> d = morse_delay k"
  by (induction pt fr st rule: morse_from.induct)
     (auto simp add: morse_finally_def split: if_splits option.splits)

lemma morse_sleeps_delay:
  "morse_resume k st = Sleeping st' d k' \<Longrightarrow> d = morse_delay k'"
proof -
  obtain aw fr where k: "k = (aw, fr)" by (cases k)
  show "morse_resume k st = Sleeping st' d k' \<Longrightarrow> d = morse_delay k'"
    unfolding k
    by (cases aw) (auto simp add: Let_def split: if_splits dest: morse_from_delay
        simp del: morse_from.simps)
qed

lemma startSOS_sleeps_delay:
  "snd (startSOS st) = Sleeping st' d a \<Longrightarrow> d = sos_delay a"
  by (auto simp add: startSOS_def sos_heads Let_def split: if_splits)

lemma transmit_sleeps_delay:
  "snd (transmitMorseWithText t st) = Sleeping st' d k \<Longrightarrow> d = morse_delay k"
  by (auto simp add: transmitMorseWithText_def split: sum.splits dest: morse_from_delay
      simp del: morse_from.simps)

text \<open>
  Claim C3, as the code has it.  \<open>stopSOS\<close> and \<open>stopMorse\<close> clear the flag of their
  loop, switch the torch off and reset the mode at once.  The loops test the flag at the
  head of every loop iteration, that is before every pulse.  So from the call of \<open>stop\<close>
  on, whatever \<open>await\<close> the loop is sleeping in, and as long as no transmission is
  started anew, the loop emits no further pulse: every segment it still sleeps through
  is dark, the torch stays off and the transmission state stays idle (the SOS loop
  changes nothing any more, the Morse loop only the displayed character), and the loop
  returns.  Every sleep lasts as long as \<open>sos_delay\<close> and \<open>morse_delay\<close> say.  A
  cancelled SOS loop returns after the sleep it is in and at most one pause, within
  800 ms in all; a cancelled Morse loop returns after the sleep it is in and at most
  three pauses (200 ms between the parts of a letter, 600 ms between letters, 1400 ms
  between words), within 2800 ms in all.
\<close>

theorem C3_cancellation:
  "stateOf (snd (drive sos_resume n (Sleeping (stopSOS st) d a))) = stopSOS st
   \<and> (\<forall>seg \<in> set (fst (drive sos_resume n (Sleeping (stopSOS st) d a))). \<not> snd seg)
   \<and> isFinished (snd (drive sos_resume 2 (Sleeping (stopSOS st) d a)))
   \<and> sum_list (map fst (fst (drive sos_resume 2 (Sleeping (stopSOS st) (sos_delay a) a)))) \<le> 800
   \<and> (sos_resume a sta = Sleeping stb db ab \<longrightarrow> db = sos_delay ab)
   \<and> (snd (startSOS sta) = Sleeping stb db ab \<longrightarrow> db = sos_delay ab)
   \<and> \<not> isFlashlightOn (stopSOS st) \<and> \<not> sosMode (stopSOS st) \<and> \<not> sosActiveRef (stopSOS st)
   \<and> (\<not> isTransmitting st \<longrightarrow> transmissionState (stopSOS st) = Idle)
   \<and> (\<not> isTransmitting st \<longrightarrow>
        transmissionState (stateOf (snd (drive sos_resume n (Sleeping (stopSOS st) d a)))) = Idle)
   \<and> stateOf (sos_dots1 i (stopSOS st)) = stopSOS st
   \<and> stateOf (sos_dashes i (stopSOS st)) = stopSOS st
   \<and> stateOf (sos_dots2 i (stopSOS st)) = stopSOS st
   \<and> (stateOf (snd (drive morse_resume n (Sleeping (stopMorse st) d k))))\<lparr>currentChar := None\<rparr>
       = stopMorse st
   \<and> (\<forall>seg \<in> set (fst (drive morse_resume n (Sleeping (stopMorse st) d k))). \<not> snd seg)
   \<and> isFinished (snd (drive morse_resume 4 (Sleeping (stopMorse st) d k)))
   \<and> sum_list (map fst (fst (drive morse_resume 4
          (Sleeping (stopMorse st) (morse_delay k) k)))) \<le> 2800
   \<and> (morse_resume k sta = Sleeping stb db kb \<longrightarrow> db = morse_delay kb)
   \<and> (snd (transmitMorseWithText t sta) = Sleeping stb db kb \<longrightarrow> db = morse_delay kb)
   \<and> \<not> isFlashlightOn (stopMorse st) \<and> \<not> isTransmitting (stopMorse st)
   \<and> \<not> morseActiveRef (stopMorse st)
   \<and> (\<not> sosMode st \<longrightarrow> transmissionState (stopMorse st) = Idle)
   \<and> (\<not> sosMode st \<longrightarrow>
        transmissionState (stateOf (snd (drive morse_resume n (Sleeping (stopMorse st) d k))))
          = Idle)
   \<and> \<not> isFlashlightOn (stateOf (snd (drive morse_resume n (Sleeping (stopMorse st) d k))))
   \<and> \<not> isFlashlightOn (stateOf (morse_from SymbolLoop fr (stopMorse st)))"
proof -
  have cs: "\<not> sosActiveRef (stopSOS st)" and cm: "\<not> morseActiveRef (stopMorse st)"
    by (simp_all add: stopSOS_def stopMorse_def)
  obtain aw f where k: "k = (aw, f)" by (cases k)
  from morse_cancelled_run [of n st d k]
  obtain c where c: "stateOf (snd (drive morse_resume n (Sleeping (stopMorse st) d k)))
                       = (stopMorse st)\<lparr>currentChar := c\<rparr>"
    and dark: "\<forall>seg \<in> set (fst (drive morse_resume n (Sleeping (stopMorse st) d k))). \<not> snd seg"
    by blast
  have m: "(stateOf (snd (drive morse_resume n (Sleeping (stopMorse st) d k))))\<lparr>currentChar := None\<rparr>
             = stopMorse st"
    unfolding c by (simp add: stopMorse_def)
  have f: "isFinished (snd (drive morse_resume 4 (Sleeping (stopMorse st) d k)))"
    unfolding k using cm by (rule morse_cancelled_finishes)
  have mt: "sum_list (map fst (fst (drive morse_resume 4
              (Sleeping (stopMorse st) (morse_delay k) k)))) \<le> 2800"
    unfolding k using cm by (rule morse_cancelled_time)
  have delays: "sos_resume a sta = Sleeping stb db ab \<longrightarrow> db = sos_delay ab"
    "morse_resume k sta = Sleeping stb db kb \<longrightarrow> db = morse_delay kb"
    "snd (startSOS sta) = Sleeping stb db ab \<longrightarrow> db = sos_delay ab"
    "snd (transmitMorseWithText t sta) = Sleeping stb db kb \<longrightarrow> db = morse_delay kb"
    using sos_sleeps_delay morse_sleeps_delay startSOS_sleeps_delay transmit_sleeps_delay
    by blast+
  have flags: "\<not> isFlashlightOn (stopSOS st)" "\<not> sosMode (stopSOS st)"
    "\<not> isFlashlightOn (stopMorse st)" "\<not> isTransmitting (stopMorse st)"
    "\<not> isTransmitting st \<longrightarrow> transmissionState (stopSOS st) = Idle"
    "\<not> sosMode st \<longrightarrow> transmissionState (stopMorse st) = Idle"
    by (simp_all add: stopSOS_def stopMorse_def transmissionState_def)
  have later: "\<not> sosMode st \<longrightarrow>
      transmissionState (stateOf (snd (drive morse_resume n (Sleeping (stopMorse st) d k))))
        = Idle"
    "\<not> isFlashlightOn (stateOf (snd (drive morse_resume n (Sleeping (stopMorse st) d k))))"
    unfolding c by (simp_all add: stopMorse_def transmissionState_def)
  have sos: "stateOf (snd (drive sos_resume n (Sleeping (stopSOS st) d a))) = stopSOS st"
    and sdark: "\<forall>seg \<in> set (fst (drive sos_resume n (Sleeping (stopSOS st) d a))). \<not> snd seg"
    using sos_cancelled_run [of n st d a] by simp_all
  have slater: "\<not> isTransmitting st \<longrightarrow>
      transmissionState (stateOf (snd (drive sos_resume n (Sleeping (stopSOS st) d a)))) = Idle"
    unfolding sos by (simp add: stopSOS_def transmissionState_def)
  from sos sdark slater sos_cancelled_finishes [OF cs, of d a]
    sos_cancelled_time [OF cs, of a] sos_heads_cancelled [of i st] m dark f flags cs cm later
    morse_head_cancelled [of fr st] mt delays
  show ?thesis by blast
qed

theorem C3_cancellation_witness:
  "isFlashlightOn (stateOf (snd (startSOS (ui (mounted True)))))
   \<and> transmissionState (stateOf (snd (startSOS (ui (mounted True))))) = RunningSOS
   \<and> transmissionState (stopSOS (stateOf (snd (startSOS (ui (mounted True)))))) = Idle
   \<and> isFinished (snd (drive sos_resume 2
        (Sleeping (stopSOS (stateOf (snd (startSOS (ui (mounted True)))))) 200 (Dots1Flash 0))))
   \<and> transmissionState (stateOf (snd (transmitMorseWithText ''SOS'' (ui (mounted True)))))
       = RunningMorse
   \<and> transmissionState
        (stopMorse (stateOf (snd (transmitMorseWithText ''SOS'' (ui (mounted True)))))) = Idle
   \<and> sum_list (map fst (fst (drive morse_resume 4
        (Sleeping (stopMorse (stateOf (snd (transmitMorseWithText ''SOS'' (ui (mounted True))))))
           (morse_delay (AwaitLetters, firstFrame ''SOS'')) (AwaitLetters, firstFrame ''SOS''))))) \<le> 2800"
proof -
  let ?S = "stateOf (snd (startSOS (ui (mounted True))))"
  let ?M = "stateOf (snd (transmitMorseWithText ''SOS'' (ui (mounted True))))"
  have s: "isFlashlightOn ?S" "transmissionState ?S = RunningSOS" "\<not> isTransmitting ?S"
    by (simp_all add: startSOS_def mounted_def sos_while_def sos_dots1_def Let_def
        transmissionState_def)
  have m: "transmissionState ?M = RunningMorse" "\<not> sosMode ?M"
    by code_simp+
  note a = C3_cancellation [where n = 2 and st = ?S and d = 200 and a = "Dots1Flash 0"
      and k = "(AwaitLetters, firstFrame ''SOS'')" and sta = ?S and stb = ?S and db = 200
      and ab = "Dots1Flash 0" and kb = "(AwaitLetters, firstFrame ''SOS'')" and t = "''SOS''"
      and i = 0 and fr = "firstFrame ''SOS''"]
  note b = C3_cancellation [where n = 2 and st = ?M and d = 200 and a = "Dots1Flash 0"
      and k = "(AwaitLetters, firstFrame ''SOS'')" and sta = ?S and stb = ?S and db = 200
      and ab = "Dots1Flash 0" and kb = "(AwaitLetters, firstFrame ''SOS'')" and t = "''SOS''"
      and i = 0 and fr = "firstFrame ''SOS''"]
  from a have sosDone: "isFinished (snd (drive sos_resume 2 (Sleeping (stopSOS ?S) 200 (Dots1Flash 0))))"
    by blast
  from a have sosIdle: "\<not> isTransmitting ?S \<longrightarrow> transmissionState (stopSOS ?S) = Idle"
    by blast
  from b have morseIdle: "\<not> sosMode ?M \<longrightarrow> transmissionState (stopMorse ?M) = Idle"
    by blast
  from b have morseTime: "sum_list (map fst (fst (drive morse_resume 4
               (Sleeping (stopMorse ?M) (morse_delay (AwaitLetters, firstFrame ''SOS''))
                  (AwaitLetters, firstFrame ''SOS''))))) \<le> 2800"
    by blast
  from sosDone sosIdle morseIdle morseTime s m show ?thesis by simp
qed

text \<open>
  Claim C3 as it is stated fails for the Morse loop: it does not return within 600 ms of
  the stop, and it sleeps through segments that no test of the flag precedes.  Stopped
  in the first dash of \<open>''MM MM''\<close>, the loop still sleeps through that dash and then
  through the pauses of 200, 600 and 1400 ms before it returns, 2800 ms in all.
\<close>

theorem C3_cancelled_morse_loop_lingers:
  "snd (transmitMorseWithText ''MM MM'' (ui (mounted True)))
     = Sleeping (stateOf (snd (transmitMorseWithText ''MM MM'' (ui (mounted True))))) 600
         (AwaitPulse, \<lparr>words = [''MM'', ''MM''], wordIndex = 0, chars = ''MM'', charIndex = 0,
                       pattern = ''--'', symbolIndex = 0\<rparr>)
   \<and> fst (drive morse_resume 4
        (Sleeping (stopMorse (stateOf (snd (transmitMorseWithText ''MM MM'' (ui (mounted True))))))
           600
           (AwaitPulse, \<lparr>words = [''MM'', ''MM''], wordIndex = 0, chars = ''MM'', charIndex = 0,
                         pattern = ''--'', symbolIndex = 0\<rparr>)))
       = [(600, False), (200, False), (600, False), (1400, False)]
   \<and> \<not> isFinished (snd (drive morse_resume 3
        (Sleeping (stopMorse (stateOf (snd (transmitMorseWithText ''MM MM'' (ui (mounted True))))))
           600
           (AwaitPulse, \<lparr>words = [''MM'', ''MM''], wordIndex = 0, chars = ''MM'', charIndex = 0,
                         pattern = ''--'', symbolIndex = 0\<rparr>))))
   \<and> \<not> sum_list (map fst (fst (drive morse_resume 4
        (Sleeping (stopMorse (stateOf (snd (transmitMorseWithText ''MM MM'' (ui (mounted True))))))
           600
           (AwaitPulse, \<lparr>words = [''MM'', ''MM''], wordIndex = 0, chars = ''MM'', charIndex = 0,
                         pattern = ''--'', symbolIndex = 0\<rparr>))))) \<le> 600
   \<and> map fst (timers (after [TransmitMorseWithText ''MM MM'', StopMorse] (mounted True)))
       = [600]
   \<and> map fst (timers (after [TransmitMorseWithText ''MM MM'', StopMorse, TimerFires 0]
                  (mounted True))) = [200]
   \<and> map fst (timers (after [TransmitMorseWithText ''MM MM'', StopMorse, TimerFires 0,
                  TimerFires 0] (mounted True))) = [600]
   \<and> map fst (timers (after [TransmitMorseWithText ''MM MM'', StopMorse, TimerFires 0,
                  TimerFires 0, TimerFires 0] (mounted True))) = [1400]
   \<and> timers (after [TransmitMorseWithText ''MM MM'', StopMorse, TimerFires 0,
                  TimerFires 0, TimerFires 0, TimerFires 0] (mounted True)) = []"
  by code_simp

section \<open>Rejected and idle calls\<close>

lemma trim_blank: "trim t = [] \<longleftrightarrow> (\<forall>c \<in> set t. isSpace c)"
proof
  assume "\<forall>c \<in> set t. isSpace c"
  then have "dropWhile isSpace t = []" by (simp add: dropWhile_eq_Nil_conv)
  then have "trim t = rev (dropWhile isSpace (rev []))" by (simp only: trim_def)
  then show "trim t = []" by simp
next
  assume "trim t = []"
  then have a: "\<forall>c \<in> set (dropWhile isSpace t). isSpace c"
    by (simp add: trim_def dropWhile_eq_Nil_conv)
  have "dropWhile isSpace t = []"
  proof (rule ccontr)
    assume n: "dropWhile isSpace t \<noteq> []"
    then have "\<not> isSpace (hd (dropWhile isSpace t))" by (rule hd_dropWhile)
    moreover have "hd (dropWhile isSpace t) \<in> set (dropWhile isSpace t)"
      using n by (rule hd_in_set)
    ultimately show False using a by blast
  qed
  then show "\<forall>c \<in> set t. isSpace c" by (simp add: dropWhile_eq_Nil_conv)
qed

text \<open>
  Claim C7.  A text that is empty or consists of white space only is rejected by
  \<open>transmitMorseWithText\<close> before anything changes: the call returns at once, the
  component state and the pending timers are what they were, and with the permission
  granted the alert is the one for an empty text (without the permission it is the one
  that asks for it).  \<open>transmitMorse\<close> rejects such a text of the input field in the
  same way.
\<close>

theorem C7_blank_text_rejected:
  assumes "\<forall>c \<in> set t. isSpace c"
  shows "trim t = []
         \<and> transmitMorseWithText t st
             = (Some (if granted st then EmptyText else PermissionRequired), Finished st)
         \<and> handle (TransmitMorseWithText t) sc
             = (Some (if granted (ui sc) then EmptyText else PermissionRequired), sc)
         \<and> (morseText (ui sc) = t \<longrightarrow> handle TransmitMorse sc = (Some EmptyText, sc))"
proof -
  from assms have b: "trim t = []" by (simp add: trim_blank)
  then show ?thesis
    by (simp add: transmitMorseWithText_def morsePrelude_def transmitMorse_def launch_def)
qed

theorem C7_blank_text_rejected_witness:
  "trim [CHR 0x20, CHR 0x09, CHR 0x20] = []
   \<and> handle (TransmitMorseWithText [CHR 0x20, CHR 0x09, CHR 0x20]) (mounted True)
       = (Some EmptyText, mounted True)
   \<and> handle (TransmitMorseWithText []) (mounted True) = (Some EmptyText, mounted True)
   \<and> handle TransmitMorse (mounted True) = (Some EmptyText, mounted True)"
proof -
  have a: "\<forall>c \<in> set [CHR 0x20, CHR 0x09, CHR 0x20]. isSpace c" by (simp add: isSpace_def)
  have b: "\<forall>c \<in> set []. isSpace c" by simp
  have g: "granted (ui (mounted True))" "morseText (ui (mounted True)) = []"
    by (simp_all add: mounted_def)
  from C7_blank_text_rejected [OF a, of "ui (mounted True)" "mounted True"]
    C7_blank_text_rejected [OF b, of "ui (mounted True)" "mounted True"] g
  show ?thesis by (simp del: handle.simps)
qed

text \<open>
  Claim C8, as the code has it.  When the transmitter is idle (both mode flags and both
  cancellation flags are off), \<open>stopSOS\<close> and \<open>stopMorse\<close> leave it idle and change
  nothing but the torch flag, which they switch off (\<open>stopMorse\<close> also clears the
  displayed character).  They change nothing at all when the torch is off (and no
  character is displayed), and calling them twice is the same as calling them once.
\<close>

theorem C8_stop_when_idle:
  assumes "\<not> sosMode st" and "\<not> isTransmitting st"
    and "\<not> sosActiveRef st" and "\<not> morseActiveRef st"
  shows "stopSOS st = st\<lparr>isFlashlightOn := False\<rparr>
         \<and> stopMorse st = st\<lparr>isFlashlightOn := False, currentChar := None\<rparr>
         \<and> transmissionState (stopSOS st) = Idle
         \<and> transmissionState (stopMorse st) = Idle
         \<and> (\<not> isFlashlightOn st \<longrightarrow> stopSOS st = st)
         \<and> (\<not> isFlashlightOn st \<and> currentChar st = None \<longrightarrow> stopMorse st = st)
         \<and> stopSOS (stopSOS st) = stopSOS st
         \<and> stopMorse (stopMorse st) = stopMorse st"
  using assms by (simp add: stopSOS_def stopMorse_def transmissionState_def)

theorem C8_stop_when_idle_witness:
  "stopSOS (ui (after [ToggleFlashlight] (mounted True)))
     = (ui (after [ToggleFlashlight] (mounted True)))\<lparr>isFlashlightOn := False\<rparr>
   \<and> transmissionState (stopSOS (ui (after [ToggleFlashlight] (mounted True)))) = Idle
   \<and> stopSOS (ui (mounted True)) = ui (mounted True)
   \<and> stopMorse (ui (mounted True)) = ui (mounted True)"
proof -
  let ?T = "ui (after [ToggleFlashlight] (mounted True))"
  let ?U = "ui (mounted True)"
  have t: "\<not> sosMode ?T" "\<not> isTransmitting ?T" "\<not> sosActiveRef ?T" "\<not> morseActiveRef ?T"
    by (simp_all add: after_def mounted_def toggleFlashlight_def)
  have u: "\<not> sosMode ?U" "\<not> isTransmitting ?U" "\<not> sosActiveRef ?U" "\<not> morseActiveRef ?U"
    "\<not> isFlashlightOn ?U" "currentChar ?U = None"
    by (simp_all add: mounted_def)
  from C8_stop_when_idle [OF t] C8_stop_when_idle [OF u(1-4)] u(5,6) show ?thesis by blast
qed

text \<open>
  Claim C8 as it is stated fails: with the torch switched on by hand the transmitter is
  idle and no loop is pending, and \<open>stopSOS\<close> as well as \<open>stopMorse\<close> switch the torch
  off.
\<close>

theorem C8_stop_switches_torch_off:
  "transmissionState (ui (after [ToggleFlashlight] (mounted True))) = Idle
   \<and> timers (after [ToggleFlashlight] (mounted True)) = []
   \<and> isFlashlightOn (ui (after [ToggleFlashlight] (mounted True)))
   \<and> \<not> isFlashlightOn (ui (after [ToggleFlashlight, StopSOS] (mounted True)))
   \<and> \<not> isFlashlightOn (ui (after [ToggleFlashlight, StopMorse] (mounted True)))
   \<and> ui (after [ToggleFlashlight, StopSOS] (mounted True))
       \<noteq> ui (after [ToggleFlashlight] (mounted True))"
  by (simp add: after_def mounted_def toggleFlashlight_def stopSOS_def stopMorse_def
      transmissionState_def)

section \<open>The Morse loop and its plan\<close>

lemma reaches_refl: "reaches r s [] s"
  by (simp add: reaches_def)

lemma reaches_Cons:
  "reaches r (r k st) segs s' \<Longrightarrow>
   reaches r (Sleeping st d k) ((d, isFlashlightOn st) # segs) s'"
  by (simp add: reaches_def)

lemma reaches_trans:
  "reaches r s a s1 \<Longrightarrow> reaches r s1 b s2 \<Longrightarrow> reaches r s (a @ b) s2"
  by (simp add: reaches_def drive_add)

lemma truthy_MORSE_CODE: "truthyPattern c = MORSE_CODE c"
proof (cases "MORSE_CODE c")
  case None
  then show ?thesis by (simp add: truthyPattern_def)
next
  case (Some p)
  then have "p \<noteq> []"
    by (auto simp: MORSE_CODE_def split: if_splits)
  with Some show ?thesis by (simp add: truthyPattern_def)
qed

lemma letterPulses_Cons:
  "r \<noteq> [] \<Longrightarrow> letterPulses (c # r) = symbolPulse c # (baseUnit, False) # letterPulses r"
  by (cases r) simp_all

declare morse_from.simps [simp del]

declare splitSpaces.simps [simp del]

lemma symbols_reach:
  assumes "morseActiveRef st" and "symbolIndex fr \<le> length (pattern fr)"
  shows "reaches morse_resume (morse_from SymbolLoop fr st)
           (letterPulses (drop (symbolIndex fr) (pattern fr)))
           (morse_from AfterSymbols (fr\<lparr>symbolIndex := length (pattern fr)\<rparr>)
              (if symbolIndex fr < length (pattern fr) then st\<lparr>isFlashlightOn := False\<rparr>
               else st))"
  using assms
proof (induction "length (pattern fr) - symbolIndex fr" arbitrary: fr st)
  case 0
  then have e: "symbolIndex fr = length (pattern fr)" by simp
  then have f: "fr\<lparr>symbolIndex := length (pattern fr)\<rparr> = fr" by (cases fr) simp
  have "morse_from SymbolLoop fr st = morse_from AfterSymbols fr st"
    using e by (simp add: morse_from.simps(3))
  then show ?case
    by (simp only: f e less_irrefl if_False drop_all order_refl letterPulses.simps reaches_refl)
next
  case (Suc n)
  let ?p = "pattern fr" and ?i = "symbolIndex fr"
  let ?st1 = "st\<lparr>isFlashlightOn := False\<rparr>"
  let ?fr1 = "fr\<lparr>symbolIndex := ?i + 1\<rparr>"
  from Suc.hyps(2) have lt: "?i < length ?p" by simp
  have ih: "reaches morse_resume (morse_from SymbolLoop ?fr1 ?st1)
              (letterPulses (drop (?i + 1) ?p))
              (morse_from AfterSymbols (fr\<lparr>symbolIndex := length ?p\<rparr>) ?st1)"
  proof -
    have "n = length (pattern ?fr1) - symbolIndex ?fr1" using Suc.hyps(2) by simp
    moreover have "morseActiveRef ?st1" using Suc.prems(1) by simp
    moreover have "symbolIndex ?fr1 \<le> length (pattern ?fr1)" using lt by simp
    ultimately have "reaches morse_resume (morse_from SymbolLoop ?fr1 ?st1)
        (letterPulses (drop (symbolIndex ?fr1) (pattern ?fr1)))
        (morse_from AfterSymbols (?fr1\<lparr>symbolIndex := length (pattern ?fr1)\<rparr>)
           (if symbolIndex ?fr1 < length (pattern ?fr1) then ?st1\<lparr>isFlashlightOn := False\<rparr>
            else ?st1))"
      by (rule Suc.hyps(1))
    then show ?thesis by (simp cong: if_cong)
  qed
  have head: "morse_from SymbolLoop fr st
                = Sleeping (st\<lparr>isFlashlightOn := True\<rparr>) (fst (symbolPulse (?p ! ?i)))
                    (AwaitPulse, fr)"
    using lt Suc.prems(1)
    by (simp add: morse_from.simps(3) symbolPulse_def baseUnit_def morse_consts)
  have d: "drop ?i ?p = ?p ! ?i # drop (?i + 1) ?p"
    using lt by (simp add: Cons_nth_drop_Suc)
  show ?case
  proof (cases "?i + 1 < length ?p")
    case True
    have r1: "morse_resume (AwaitPulse, fr) (st\<lparr>isFlashlightOn := True\<rparr>)
                = Sleeping ?st1 baseUnit (AwaitParts, fr)"
      using True by (simp add: Let_def baseUnit_def morse_consts)
    have r2: "morse_resume (AwaitParts, fr) ?st1 = morse_from SymbolLoop ?fr1 ?st1" by simp
    have "reaches morse_resume (Sleeping ?st1 baseUnit (AwaitParts, fr))
            ((baseUnit, isFlashlightOn ?st1) # letterPulses (drop (?i + 1) ?p))
            (morse_from AfterSymbols (fr\<lparr>symbolIndex := length ?p\<rparr>) ?st1)"
      by (rule reaches_Cons) (simp only: r2 ih)
    then have "reaches morse_resume (Sleeping (st\<lparr>isFlashlightOn := True\<rparr>)
                  (fst (symbolPulse (?p ! ?i))) (AwaitPulse, fr))
            ((fst (symbolPulse (?p ! ?i)), isFlashlightOn (st\<lparr>isFlashlightOn := True\<rparr>))
               # (baseUnit, isFlashlightOn ?st1) # letterPulses (drop (?i + 1) ?p))
            (morse_from AfterSymbols (fr\<lparr>symbolIndex := length ?p\<rparr>) ?st1)"
      by (intro reaches_Cons) (simp only: r1)
    moreover have "drop (?i + 1) ?p \<noteq> []" using True by simp
    ultimately show ?thesis
      using lt by (simp add: head d letterPulses_Cons symbolPulse_def)
  next
    case False
    with lt have e: "?i + 1 = length ?p" by simp
    have r1: "morse_resume (AwaitPulse, fr) (st\<lparr>isFlashlightOn := True\<rparr>)
                = morse_from SymbolLoop ?fr1 ?st1"
      using False by (simp add: Let_def)
    have "reaches morse_resume (Sleeping (st\<lparr>isFlashlightOn := True\<rparr>)
                  (fst (symbolPulse (?p ! ?i))) (AwaitPulse, fr))
            ((fst (symbolPulse (?p ! ?i)), isFlashlightOn (st\<lparr>isFlashlightOn := True\<rparr>))
               # letterPulses (drop (?i + 1) ?p))
            (morse_from AfterSymbols (fr\<lparr>symbolIndex := length ?p\<rparr>) ?st1)"
      by (intro reaches_Cons) (simp only: r1 ih)
    moreover have "drop (?i + 1) ?p = []" using e by simp
    ultimately show ?thesis
      using lt by (simp add: head d symbolPulse_def)
  qed
qed

lemma quiet_refl: "\<not> isFlashlightOn st \<Longrightarrow> quiet st st"
  unfolding quiet_def by (intro exI [of _ "currentChar st"]) simp

lemma quiet_char: "\<not> isFlashlightOn st \<Longrightarrow> quiet st (st\<lparr>currentChar := c\<rparr>)"
  unfolding quiet_def by (intro exI [of _ c] flash.equality) simp_all

lemma quiet_off: "quiet st (st\<lparr>currentChar := c, isFlashlightOn := False\<rparr>)"
  unfolding quiet_def by (intro exI [of _ c] flash.equality) simp_all

lemma quiet_trans: "quiet a b \<Longrightarrow> quiet b c \<Longrightarrow> quiet a c"
  unfolding quiet_def by auto

lemma quiet_facts:
  assumes "quiet st st'"
  shows "morseActiveRef st' = morseActiveRef st" and "\<not> isFlashlightOn st'"
    and "morse_finally st' = morse_finally st"
  using assms by (auto simp: quiet_def morse_finally_def)

lemma chars_reach:
  assumes "morseActiveRef st" and "\<not> isFlashlightOn st"
    and "charIndex fr \<le> length (chars fr)"
  shows "\<exists>fr' st'. reaches morse_resume (morse_from CharLoop fr st)
            (wordSegments (drop (charIndex fr) (chars fr))) (morse_from AfterChars fr' st')
          \<and> words fr' = words fr \<and> wordIndex fr' = wordIndex fr \<and> quiet st st'"
  using assms
proof (induction "length (chars fr) - charIndex fr" arbitrary: fr st)
  case 0
  then have e: "charIndex fr = length (chars fr)" by simp
  then have h: "morse_from CharLoop fr st = morse_from AfterChars fr st"
    by (simp add: morse_from.simps(2))
  have "reaches morse_resume (morse_from CharLoop fr st)
          (wordSegments (drop (charIndex fr) (chars fr))) (morse_from AfterChars fr st)"
    by (simp only: h e drop_all order_refl wordSegments.simps reaches_refl)
  with quiet_refl [OF "0.prems"(2)] show ?case by blast
next
  case (Suc n)
  let ?cs = "chars fr" and ?c = "charIndex fr"
  let ?ch = "?cs ! ?c"
  let ?r = "drop (?c + 1) ?cs"
  from Suc.hyps(2) have lt: "?c < length ?cs" by simp
  have d: "drop ?c ?cs = ?ch # ?r" using lt by (simp add: Cons_nth_drop_Suc)
  have ih: "\<exists>fr' st'. reaches morse_resume (morse_from CharLoop f s) (wordSegments ?r)
                (morse_from AfterChars fr' st')
              \<and> words fr' = words fr \<and> wordIndex fr' = wordIndex fr \<and> quiet s st'"
    if "chars f = ?cs" "charIndex f = ?c + 1" "words f = words fr"
      "wordIndex f = wordIndex fr" "morseActiveRef s" "\<not> isFlashlightOn s" for f s
  proof -
    have "n = length (chars f) - charIndex f" using Suc.hyps(2) that by simp
    moreover have "charIndex f \<le> length (chars f)" using lt that by simp
    ultimately show ?thesis
      using Suc.hyps(1) [of f s] that by simp
  qed
  show ?case
  proof (cases "MORSE_CODE ?ch")
    case None
    let ?s2 = "st\<lparr>currentChar := Some (?ch # '' (ignored)'')\<rparr>"
    let ?f2 = "fr\<lparr>charIndex := ?c + 1\<rparr>"
    have head: "morse_from CharLoop fr st = Sleeping ?s2 (3 * baseUnit) (AwaitIgnored, fr)"
      using lt Suc.prems(1) None
      by (simp add: morse_from.simps(2) truthy_MORSE_CODE baseUnit_def morse_consts)
    have res: "morse_resume (AwaitIgnored, fr) ?s2 = morse_from CharLoop ?f2 ?s2" by simp
    from ih [of ?f2 ?s2] Suc.prems obtain fr' st'
      where a: "reaches morse_resume (morse_from CharLoop ?f2 ?s2) (wordSegments ?r)
                  (morse_from AfterChars fr' st')"
        and b: "words fr' = words fr" "wordIndex fr' = wordIndex fr" and q: "quiet ?s2 st'"
      by auto
    have "reaches morse_resume (Sleeping ?s2 (3 * baseUnit) (AwaitIgnored, fr))
            ((3 * baseUnit, isFlashlightOn ?s2) # wordSegments ?r)
            (morse_from AfterChars fr' st')"
      by (rule reaches_Cons) (simp only: res a)
    then have "reaches morse_resume (morse_from CharLoop fr st)
                 (wordSegments (drop ?c ?cs)) (morse_from AfterChars fr' st')"
      using None Suc.prems(2) by (simp add: head d)
    moreover have "quiet st st'"
      using quiet_char [OF Suc.prems(2)] q by (rule quiet_trans)
    ultimately show ?thesis using b by blast
  next
    case (Some p)
    then have pn: "p \<noteq> []"
      using truthy_MORSE_CODE [of ?ch] by (auto simp: truthyPattern_def split: if_splits)
    let ?s3 = "st\<lparr>currentChar := Some (?ch # '' ('' @ p @ '')'')\<rparr>"
    let ?f3 = "fr\<lparr>pattern := p, symbolIndex := 0\<rparr>"
    let ?s4 = "?s3\<lparr>isFlashlightOn := False\<rparr>"
    let ?f4 = "?f3\<lparr>symbolIndex := length p\<rparr>"
    let ?f5 = "?f4\<lparr>charIndex := ?c + 1\<rparr>"
    have head: "morse_from CharLoop fr st = morse_from SymbolLoop ?f3 ?s3"
      using lt Suc.prems(1) Some
      by (simp add: morse_from.simps(2) truthy_MORSE_CODE)
    have "reaches morse_resume (morse_from SymbolLoop ?f3 ?s3)
            (letterPulses (drop (symbolIndex ?f3) (pattern ?f3)))
            (morse_from AfterSymbols (?f3\<lparr>symbolIndex := length (pattern ?f3)\<rparr>)
               (if symbolIndex ?f3 < length (pattern ?f3) then ?s3\<lparr>isFlashlightOn := False\<rparr>
                else ?s3))"
      using Suc.prems(1) by (intro symbols_reach) simp_all
    then have sym: "reaches morse_resume (morse_from CharLoop fr st) (letterPulses p)
                      (morse_from AfterSymbols ?f4 ?s4)"
      using pn by (simp add: head)
    from ih [of ?f5 ?s4] Suc.prems obtain fr' st'
      where a: "reaches morse_resume (morse_from CharLoop ?f5 ?s4) (wordSegments ?r)
                  (morse_from AfterChars fr' st')"
        and b: "words fr' = words fr" "wordIndex fr' = wordIndex fr" and q: "quiet ?s4 st'"
      by auto
    have qq: "quiet st st'" using quiet_off q by (rule quiet_trans)
    have rest: "reaches morse_resume (morse_from AfterSymbols ?f4 ?s4)
                  ((if ?r = [] then [] else [(3 * baseUnit, False)]) @ wordSegments ?r)
                  (morse_from AfterChars fr' st')"
    proof (cases "?c + 1 < length ?cs")
      case True
      have h: "morse_from AfterSymbols ?f4 ?s4 = Sleeping ?s4 (3 * baseUnit) (AwaitLetters, ?f4)"
        using True by (simp add: morse_from.simps(4) baseUnit_def morse_consts)
      have res: "morse_resume (AwaitLetters, ?f4) ?s4 = morse_from CharLoop ?f5 ?s4" by simp
      have "reaches morse_resume (Sleeping ?s4 (3 * baseUnit) (AwaitLetters, ?f4))
              ((3 * baseUnit, isFlashlightOn ?s4) # wordSegments ?r)
              (morse_from AfterChars fr' st')"
        by (rule reaches_Cons) (simp only: res a)
      moreover have "?r \<noteq> []" using True by simp
      ultimately show ?thesis unfolding h by simp
    next
      case False
      have h: "morse_from AfterSymbols ?f4 ?s4 = morse_from CharLoop ?f5 ?s4"
        using False by (simp add: morse_from.simps(4))
      have "?r = []" using False by simp
      with a show ?thesis unfolding h by simp
    qed
    have "reaches morse_resume (morse_from CharLoop fr st)
            (letterPulses p @ (if ?r = [] then [] else [(3 * baseUnit, False)]) @ wordSegments ?r)
            (morse_from AfterChars fr' st')"
      using sym rest by (rule reaches_trans)
    then have "reaches morse_resume (morse_from CharLoop fr st)
                 (wordSegments (drop ?c ?cs)) (morse_from AfterChars fr' st')"
      using Some by (simp add: d)
    with qq b show ?thesis by blast
  qed
qed

lemma morsePlan_Cons:
  "morsePlan (w # r)
     = wordSegments w @ (if r = [] then [] else (7 * baseUnit, False) # morsePlan r)"
  by (cases r) (simp_all add: morsePlan_def)

lemma words_reach:
  assumes "morseActiveRef st" and "\<not> isFlashlightOn st"
    and "wordIndex fr \<le> length (words fr)"
  shows "\<exists>st'. reaches morse_resume (morse_from WordLoop fr st)
            (morsePlan (drop (wordIndex fr) (words fr))) (morse_finally st')
          \<and> quiet st st'"
  using assms
proof (induction "length (words fr) - wordIndex fr" arbitrary: fr st)
  case 0
  then have e: "wordIndex fr = length (words fr)" by simp
  then have h: "morse_from WordLoop fr st = morse_finally st"
    by (simp add: morse_from.simps(1))
  have "reaches morse_resume (morse_from WordLoop fr st)
          (morsePlan (drop (wordIndex fr) (words fr))) (morse_finally st)"
    by (simp add: h e morsePlan_def reaches_refl)
  with quiet_refl [OF "0.prems"(2)] show ?case by blast
next
  case (Suc n)
  let ?ws = "words fr" and ?w = "wordIndex fr"
  let ?r = "drop (?w + 1) ?ws"
  let ?f1 = "fr\<lparr>chars := ?ws ! ?w, charIndex := 0\<rparr>"
  from Suc.hyps(2) have lt: "?w < length ?ws" by simp
  have d: "drop ?w ?ws = ?ws ! ?w # ?r" using lt by (simp add: Cons_nth_drop_Suc)
  have ih: "\<exists>st'. reaches morse_resume (morse_from WordLoop f s) (morsePlan ?r)
                (morse_finally st') \<and> quiet s st'"
    if "words f = ?ws" "wordIndex f = ?w + 1" "morseActiveRef s" "\<not> isFlashlightOn s" for f s
  proof -
    have "n = length (words f) - wordIndex f" using Suc.hyps(2) that by simp
    moreover have "wordIndex f \<le> length (words f)" using lt that by simp
    ultimately show ?thesis
      using Suc.hyps(1) [of f s] that by simp
  qed
  have head: "morse_from WordLoop fr st = morse_from CharLoop ?f1 st"
    using lt Suc.prems(1) by (simp add: morse_from.simps(1))
  have "\<exists>fr' st'. reaches morse_resume (morse_from CharLoop ?f1 st)
            (wordSegments (drop (charIndex ?f1) (chars ?f1))) (morse_from AfterChars fr' st')
          \<and> words fr' = words ?f1 \<and> wordIndex fr' = wordIndex ?f1 \<and> quiet st st'"
    using Suc.prems(1,2) by (intro chars_reach) simp_all
  then obtain f2 s2
    where c: "reaches morse_resume (morse_from WordLoop fr st) (wordSegments (?ws ! ?w))
                (morse_from AfterChars f2 s2)"
      and b: "words f2 = ?ws" "wordIndex f2 = ?w" and q: "quiet st s2"
    by (auto simp: head)
  have r2: "morseActiveRef s2" "\<not> isFlashlightOn s2"
    using quiet_facts [OF q] Suc.prems(1) by simp_all
  let ?f3 = "f2\<lparr>wordIndex := ?w + 1\<rparr>"
  have rest: "\<exists>st'. reaches morse_resume (morse_from AfterChars f2 s2)
                (if ?r = [] then [] else (7 * baseUnit, False) # morsePlan ?r)
                (morse_finally st') \<and> quiet s2 st'"
  proof (cases "?w + 1 < length ?ws")
    case True
    let ?s3 = "s2\<lparr>currentChar := Some ''(space)''\<rparr>"
    have h: "morse_from AfterChars f2 s2 = Sleeping ?s3 (7 * baseUnit) (AwaitWords, f2)"
      using True b by (simp add: morse_from.simps(5) baseUnit_def morse_consts)
    have res: "morse_resume (AwaitWords, f2) ?s3 = morse_from WordLoop ?f3 ?s3"
      using b by simp
    from ih [of ?f3 ?s3] b r2 obtain st'
      where a: "reaches morse_resume (morse_from WordLoop ?f3 ?s3) (morsePlan ?r)
                  (morse_finally st')" and q3: "quiet ?s3 st'"
      by auto
    have "reaches morse_resume (Sleeping ?s3 (7 * baseUnit) (AwaitWords, f2))
            ((7 * baseUnit, isFlashlightOn ?s3) # morsePlan ?r) (morse_finally st')"
      by (rule reaches_Cons) (simp only: res a)
    moreover have "?r \<noteq> []" using True by simp
    moreover have "quiet s2 st'" using quiet_char [OF r2(2)] q3 by (rule quiet_trans)
    ultimately show ?thesis unfolding h using r2(2) by auto
  next
    case False
    have h: "morse_from AfterChars f2 s2 = morse_from WordLoop ?f3 s2"
      using False b by (simp add: morse_from.simps(5))
    have e: "?r = []" using False by simp
    from ih [of ?f3 s2] b r2 obtain st'
      where "reaches morse_resume (morse_from WordLoop ?f3 s2) (morsePlan ?r)
               (morse_finally st')" and "quiet s2 st'"
      by auto
    then show ?thesis unfolding h using False by (auto simp: morsePlan_def)
  qed
  then obtain st' where a: "reaches morse_resume (morse_from AfterChars f2 s2)
                (if ?r = [] then [] else (7 * baseUnit, False) # morsePlan ?r)
                (morse_finally st')" and q2: "quiet s2 st'"
    by blast
  have "reaches morse_resume (morse_from WordLoop fr st)
          (wordSegments (?ws ! ?w) @ (if ?r = [] then [] else (7 * baseUnit, False) # morsePlan ?r))
          (morse_finally st')"
    using c a by (rule reaches_trans)
  then have "reaches morse_resume (morse_from WordLoop fr st) (morsePlan (drop ?w ?ws))
               (morse_finally st')"
    by (simp only: d morsePlan_Cons)
  moreover have "quiet st st'" using q q2 by (rule quiet_trans)
  ultimately show ?case by blast
qed

lemma reaches_drive:
  assumes "reaches r s segs (Finished st')" and "length segs \<le> n"
  shows "drive r n s = (segs, Finished st')"
proof -
  from assms(2) have "n = length segs + (n - length segs)" by simp
  then have "drive r n s = drive r (length segs + (n - length segs)) s" by (rule arg_cong)
  also have "\<dots> = (segs, Finished st')"
    using assms(1) by (simp add: drive_add reaches_def drive_Finished)
  finally show ?thesis .
qed

lemma transmission_reaches:
  assumes "granted st" and "trim t \<noteq> []" and "\<not> isFlashlightOn st"
  shows "fst (transmitMorseWithText t st) = None
         \<and> reaches morse_resume (snd (transmitMorseWithText t st))
             (morsePlan (splitSpaces (trim (toUpperCase t))))
             (Finished (stopMorse (if sosMode st then stopSOS st else st)))"
proof -
  let ?s0 = "if sosMode st then stopSOS st else st"
  let ?s1 = "?s0\<lparr>isTransmitting := True, morseActiveRef := True, currentChar := None\<rparr>"
  have t: "transmitMorseWithText t st = (None, morse_from WordLoop (firstFrame t) ?s1)"
    using assms(1,2) by (simp add: transmitMorseWithText_def morsePrelude_def Let_def)
  have off: "\<not> isFlashlightOn ?s1" using assms(3) by (simp add: stopSOS_def)
  have "\<exists>st'. reaches morse_resume (morse_from WordLoop (firstFrame t) ?s1)
            (morsePlan (drop (wordIndex (firstFrame t)) (words (firstFrame t))))
            (morse_finally st') \<and> quiet ?s1 st'"
    using off by (intro words_reach) (simp_all add: firstFrame_def)
  then obtain st' where a: "reaches morse_resume (morse_from WordLoop (firstFrame t) ?s1)
            (morsePlan (splitSpaces (trim (toUpperCase t)))) (morse_finally st')"
    and q: "quiet ?s1 st'"
    by (auto simp: firstFrame_def)
  have "morse_finally st' = morse_finally ?s1" using q by (rule quiet_facts)
  also have "\<dots> = Finished (stopMorse ?s0)"
    by (simp add: morse_finally_def stopMorse_def stopSOS_def)
  finally show ?thesis using a by (simp add: t)
qed

lemma wordSegments_unknown:
  assumes "MORSE_CODE ch = None"
  shows "wordSegments (u @ ch # v) = wordSegments (u @ [ch]) @ wordSegments v"
  using assms by (induction u) (simp_all split: option.splits)

text \<open>
  Claim C4, as the code has it.  Started with the permission granted, a text that is not
  blank and the torch off, the Morse loop shows no alert and, left alone, sleeps through
  exactly the plan of the words of the upper-cased, trimmed text and then returns, with
  the torch off and the transmission flags reset.  The plan has the base unit of 200 ms:
  a dot is one unit of light and a dash three, the pulses of a letter are one dark unit
  apart with none after its last pulse, a letter of the table is followed by three dark
  units unless it is the last character of its word, a character that is not in the table
  is replaced by three dark units wherever it stands (also at the end of a word), and
  the words are seven dark units apart with none after the last word.
\<close>

theorem C4_morse_plan:
  assumes "granted st" and "trim t \<noteq> []" and "\<not> isFlashlightOn st"
    and "length (morsePlan (splitSpaces (trim (toUpperCase t)))) \<le> n"
  shows "fst (transmitMorseWithText t st) = None
         \<and> drive morse_resume n (snd (transmitMorseWithText t st))
             = (morsePlan (splitSpaces (trim (toUpperCase t))),
                Finished (stopMorse (if sosMode st then stopSOS st else st)))
         \<and> T = baseUnit \<and> baseUnit = 200"
proof -
  from transmission_reaches [OF assms(1-3)]
  have a: "fst (transmitMorseWithText t st) = None"
    and b: "reaches morse_resume (snd (transmitMorseWithText t st))
              (morsePlan (splitSpaces (trim (toUpperCase t))))
              (Finished (stopMorse (if sosMode st then stopSOS st else st)))"
    by simp_all
  from reaches_drive [OF b assms(4)] a show ?thesis by (simp add: T_def baseUnit_def)
qed

theorem C4_morse_plan_witness:
  "drive morse_resume 30 (snd (transmitMorseWithText ''so s!'' (ui (mounted True))))
     = ([(200, True), (200, False), (200, True), (200, False), (200, True), (600, False),
         (600, True), (200, False), (600, True), (200, False), (600, True), (1400, False),
         (200, True), (200, False), (200, True), (200, False), (200, True), (600, False),
         (600, False)],
        Finished (ui (mounted True)))"
proof -
  let ?st = "ui (mounted True)"
  have w: "splitSpaces (trim (toUpperCase ''so s!'')) = [''SO'', ''S!'']" by code_simp
  have p: "morsePlan [''SO'', ''S!'']
             = [(200, True), (200, False), (200, True), (200, False), (200, True), (600, False),
                (600, True), (200, False), (600, True), (200, False), (600, True), (1400, False),
                (200, True), (200, False), (200, True), (200, False), (200, True), (600, False),
                (600, False)]"
    by code_simp
  have g: "granted ?st" "\<not> isFlashlightOn ?st" "\<not> sosMode ?st" "stopMorse ?st = ?st"
    by (simp_all add: mounted_def stopMorse_def)
  have n: "trim ''so s!'' \<noteq> []" by code_simp
  have l: "length (morsePlan (splitSpaces (trim (toUpperCase ''so s!'')))) \<le> 30"
    by (simp add: w p)
  from C4_morse_plan [OF g(1) n g(2) l] show ?thesis by (simp add: w p g)
qed

text \<open>
  Claim C4 as it is stated fails on a word whose last character is not in the table: for
  the text \<open>A!\<close> the loop sleeps three dark units for the \<open>!\<close> at the end of the word,
  after the three dark units that follow the \<open>A\<close>.
\<close>

theorem C4_unknown_last_character:
  "drive morse_resume 9 (snd (transmitMorseWithText ''A!'' (ui (mounted True))))
     = ([(200, True), (200, False), (600, True), (600, False), (600, False)],
        Finished (ui (mounted True)))
   \<and> claimedPlan (splitSpaces (trim (toUpperCase ''A!'')))
       = [(200, True), (200, False), (600, True), (600, False)]
   \<and> fst (drive morse_resume 9 (snd (transmitMorseWithText ''A!'' (ui (mounted True)))))
       \<noteq> claimedPlan (splitSpaces (trim (toUpperCase ''A!'')))"
  by code_simp

text \<open>
  Claim C6.  At a character that is not in the Morse table the loop does not touch the
  torch, shows no alert and does not return: it sleeps once, for 600 ms, and goes on
  with the next character.  In the plan of a word such a character stands for exactly
  one dark segment of 600 ms, after which the plan of the remaining characters follows;
  the transmission of a text with such characters runs to its end like any other.  The
  text \<open>A1!B\<close> gives the pulses of A and 1, the pause for \<open>!\<close> and the pulses of B.
\<close>

theorem C6_unknown_character:
  assumes "MORSE_CODE ch = None"
  shows "(morseActiveRef st \<and> charIndex fr < length (chars fr) \<and> chars fr ! charIndex fr = ch
            \<longrightarrow> morse_from CharLoop fr st
                  = Sleeping (st\<lparr>currentChar := Some (ch # '' (ignored)'')\<rparr>) 600
                      (AwaitIgnored, fr))
         \<and> morse_resume (AwaitIgnored, fr) st
             = morse_from CharLoop (fr\<lparr>charIndex := charIndex fr + 1\<rparr>) st
         \<and> wordSegments [ch] = [(600, False)]
         \<and> wordSegments (u @ ch # v) = wordSegments (u @ [ch]) @ wordSegments v
         \<and> (granted s \<and> trim t \<noteq> [] \<and> \<not> isFlashlightOn s
              \<and> length (morsePlan (splitSpaces (trim (toUpperCase t)))) \<le> n
            \<longrightarrow> transmitMorseWithText t s
                  = (None, snd (transmitMorseWithText t s))
                \<and> drive morse_resume n (snd (transmitMorseWithText t s))
                  = (morsePlan (splitSpaces (trim (toUpperCase t))),
                     Finished (stopMorse (if sosMode s then stopSOS s else s))))"
proof -
  have step: "morse_from CharLoop fr st
                = Sleeping (st\<lparr>currentChar := Some (ch # '' (ignored)'')\<rparr>) 600 (AwaitIgnored, fr)"
    if "morseActiveRef st" "charIndex fr < length (chars fr)" "chars fr ! charIndex fr = ch"
    using that assms by (simp add: morse_from.simps(2) truthy_MORSE_CODE morse_consts)
  have one: "wordSegments [ch] = [(600, False)]" using assms by (simp add: baseUnit_def)
  have run: "transmitMorseWithText t s = (None, snd (transmitMorseWithText t s))
             \<and> drive morse_resume n (snd (transmitMorseWithText t s))
                = (morsePlan (splitSpaces (trim (toUpperCase t))),
                   Finished (stopMorse (if sosMode s then stopSOS s else s)))"
    if h: "granted s" "trim t \<noteq> []" "\<not> isFlashlightOn s"
      "length (morsePlan (splitSpaces (trim (toUpperCase t)))) \<le> n"
  proof -
    from transmission_reaches [OF h(1-3)]
    have a: "fst (transmitMorseWithText t s) = None"
      and b: "reaches morse_resume (snd (transmitMorseWithText t s))
                (morsePlan (splitSpaces (trim (toUpperCase t))))
                (Finished (stopMorse (if sosMode s then stopSOS s else s)))"
      by simp_all
    from a have "transmitMorseWithText t s = (None, snd (transmitMorseWithText t s))"
      by (cases "transmitMorseWithText t s") simp
    with reaches_drive [OF b h(4)] show ?thesis by simp
  qed
  from step one wordSegments_unknown [OF assms, of u v] run show ?thesis by simp
qed

theorem C6_unknown_character_witness:
  "MORSE_CODE (CHR ''!'') = None
   \<and> drive morse_resume 40 (snd (transmitMorseWithText ''A1!B'' (ui (mounted True))))
     = ([(200, True), (200, False), (600, True), (600, False),
         (200, True), (200, False), (600, True), (200, False), (600, True), (200, False),
         (600, True), (200, False), (600, True), (600, False),
         (600, False),
         (600, True), (200, False), (200, True), (200, False), (200, True), (200, False),
         (200, True)],
        Finished (ui (mounted True)))
   \<and> wordSegments ''A1!B'' = wordSegments ''A1!'' @ wordSegments ''B''
   \<and> morse_from CharLoop
        \<lparr>words = [''A!''], wordIndex = 0, chars = ''A!'', charIndex = 1, pattern = ''.-'',
         symbolIndex = 2\<rparr>
        (stateOf (snd (transmitMorseWithText ''A!'' (ui (mounted True)))))
     = Sleeping
         ((stateOf (snd (transmitMorseWithText ''A!'' (ui (mounted True)))))
            \<lparr>currentChar := Some ''! (ignored)''\<rparr>)
         600
         (AwaitIgnored,
          \<lparr>words = [''A!''], wordIndex = 0, chars = ''A!'', charIndex = 1, pattern = ''.-'',
           symbolIndex = 2\<rparr>)"
proof -
  let ?st = "ui (mounted True)"
  let ?fr = "\<lparr>words = [''A!''], wordIndex = 0, chars = ''A!'', charIndex = 1,
               pattern = ''.-'', symbolIndex = 2\<rparr>"
  let ?run = "stateOf (snd (transmitMorseWithText ''A!'' (ui (mounted True))))"
  have u: "MORSE_CODE (CHR ''!'') = None" by code_simp
  have f: "morseActiveRef ?run" by code_simp
  have i: "charIndex ?fr < length (chars ?fr)" "chars ?fr ! charIndex ?fr = CHR ''!''"
    by simp_all
  from C6_unknown_character [OF u, where st = ?run and fr = ?fr] f i
  have s: "morse_from CharLoop ?fr ?run
             = Sleeping (?run\<lparr>currentChar := Some ''! (ignored)''\<rparr>) 600 (AwaitIgnored, ?fr)"
    by simp
  have w: "splitSpaces (trim (toUpperCase ''A1!B'')) = [''A1!B'']" by code_simp
  have p: "morsePlan [''A1!B'']
     = [(200, True), (200, False), (600, True), (600, False),
         (200, True), (200, False), (600, True), (200, False), (600, True), (200, False),
         (600, True), (200, False), (600, True), (600, False),
         (600, False),
         (600, True), (200, False), (200, True), (200, False), (200, True), (200, False),
         (200, True)]"
    by code_simp
  have g: "granted ?st" "\<not> isFlashlightOn ?st" "\<not> sosMode ?st" "stopMorse ?st = ?st"
    by (simp_all add: mounted_def stopMorse_def)
  have n: "trim ''A1!B'' \<noteq> []" by code_simp
  have l: "length (morsePlan (splitSpaces (trim (toUpperCase ''A1!B'')))) \<le> 40"
    by (simp add: w p)
  from C6_unknown_character [OF u, where u = "''A1''" and v = "''B''" and s = ?st
      and t = "''A1!B''" and n = 40]
  have "drive morse_resume 40 (snd (transmitMorseWithText ''A1!B'' ?st))
          = (morsePlan (splitSpaces (trim (toUpperCase ''A1!B''))), Finished (stopMorse ?st))"
    and "wordSegments ''A1!B'' = wordSegments ''A1!'' @ wordSegments ''B''"
    using g n l by simp_all
  with u s show ?thesis by (simp add: w p g)
qed

section \<open>One transmission at a time\<close>

lemma sos_resume_fields:
  "isTransmitting (stateOf (sos_resume a st)) = isTransmitting st"
  "morseActiveRef (stateOf (sos_resume a st)) = morseActiveRef st"
  "sosActiveRef (stateOf (sos_resume a st)) = sosActiveRef st"
  "sosMode (stateOf (sos_resume a st)) \<Longrightarrow> sosMode st"
  "\<not> isFinished (sos_resume a st) \<Longrightarrow> sosMode (stateOf (sos_resume a st)) = sosMode st"
  "isFinished (sos_resume a st) \<Longrightarrow>
     \<not> sosMode (stateOf (sos_resume a st)) \<and> \<not> sosActiveRef st
     \<and> \<not> isFlashlightOn (stateOf (sos_resume a st))"
  "isFlashlightOn (stateOf (sos_resume a st)) \<Longrightarrow>
     turnsOn SosTask (sos_resume a st) \<or> (isFlashlightOn st \<and> \<not> holdsLight (SosTask a))"
  by (cases a; force simp add: sos_heads Let_def turnsOn_def split: if_splits)+

lemma morse_from_fields:
  "sosMode (stateOf (morse_from pt fr st)) = sosMode st
   \<and> sosActiveRef (stateOf (morse_from pt fr st)) = sosActiveRef st
   \<and> (isFinished (morse_from pt fr st) \<longrightarrow>
        \<not> isTransmitting (stateOf (morse_from pt fr st))
        \<and> \<not> morseActiveRef (stateOf (morse_from pt fr st))
        \<and> \<not> isFlashlightOn (stateOf (morse_from pt fr st)))
   \<and> (\<not> isFinished (morse_from pt fr st) \<longrightarrow>
        isTransmitting (stateOf (morse_from pt fr st)) = isTransmitting st
        \<and> morseActiveRef (stateOf (morse_from pt fr st)) = morseActiveRef st)
   \<and> (isFlashlightOn (stateOf (morse_from pt fr st)) \<longrightarrow>
        turnsOn MorseTask (morse_from pt fr st) \<or> isFlashlightOn st)"
proof (induction pt fr st rule: morse_from.induct)
  case (1 fr st)
  then show ?case
    by (simp only: morse_from.simps(1) [of fr st])
       (auto simp: morse_finally_def turnsOn_def split: if_splits)
next
  case (2 fr st)
  then show ?case
    by (simp only: morse_from.simps(2) [of fr st])
       (auto simp: morse_finally_def turnsOn_def split: if_splits option.splits)
next
  case (3 fr st)
  then show ?case
    by (simp only: morse_from.simps(3) [of fr st])
       (auto simp: morse_finally_def turnsOn_def split: if_splits)
next
  case (4 fr st)
  then show ?case
    by (simp only: morse_from.simps(4) [of fr st])
       (auto simp: morse_finally_def turnsOn_def split: if_splits)
next
  case (5 fr st)
  then show ?case
    by (simp only: morse_from.simps(5) [of fr st])
       (auto simp: morse_finally_def turnsOn_def split: if_splits)
qed

lemma morse_resume_fields:
  "sosMode (stateOf (morse_resume k st)) = sosMode st"
  "sosActiveRef (stateOf (morse_resume k st)) = sosActiveRef st"
  "isFinished (morse_resume k st) \<Longrightarrow>
     \<not> isTransmitting (stateOf (morse_resume k st))
     \<and> \<not> morseActiveRef (stateOf (morse_resume k st))
     \<and> \<not> isFlashlightOn (stateOf (morse_resume k st))"
  "\<not> isFinished (morse_resume k st) \<Longrightarrow>
     isTransmitting (stateOf (morse_resume k st)) = isTransmitting st
     \<and> morseActiveRef (stateOf (morse_resume k st)) = morseActiveRef st"
  "isFlashlightOn (stateOf (morse_resume k st)) \<Longrightarrow>
     turnsOn MorseTask (morse_resume k st)
     \<or> (isFlashlightOn st \<and> \<not> holdsLight (MorseTask k))"
proof -
  obtain aw fr where k: "k = (aw, fr)" by (cases k)
  note f = morse_from_fields
  show "sosMode (stateOf (morse_resume k st)) = sosMode st"
    unfolding k by (cases aw) (simp_all add: Let_def f)
  show "sosActiveRef (stateOf (morse_resume k st)) = sosActiveRef st"
    unfolding k by (cases aw) (simp_all add: Let_def f)
  show "isFinished (morse_resume k st) \<Longrightarrow>
     \<not> isTransmitting (stateOf (morse_resume k st))
     \<and> \<not> morseActiveRef (stateOf (morse_resume k st))
     \<and> \<not> isFlashlightOn (stateOf (morse_resume k st))"
    unfolding k by (cases aw) (auto simp add: Let_def f split: if_splits)
  show "\<not> isFinished (morse_resume k st) \<Longrightarrow>
     isTransmitting (stateOf (morse_resume k st)) = isTransmitting st
     \<and> morseActiveRef (stateOf (morse_resume k st)) = morseActiveRef st"
    unfolding k
    using f [of SymbolLoop "fr\<lparr>symbolIndex := symbolIndex fr + 1\<rparr>" "st\<lparr>isFlashlightOn := False\<rparr>"]
    by (cases aw) (auto simp add: Let_def f split: if_splits)
  show "isFlashlightOn (stateOf (morse_resume k st)) \<Longrightarrow>
     turnsOn MorseTask (morse_resume k st)
     \<or> (isFlashlightOn st \<and> \<not> holdsLight (MorseTask k))"
    unfolding k
    using f [of SymbolLoop "fr\<lparr>symbolIndex := symbolIndex fr + 1\<rparr>" "st\<lparr>isFlashlightOn := False\<rparr>"]
      f [of SymbolLoop "fr\<lparr>symbolIndex := symbolIndex fr + 1\<rparr>" st]
      f [of CharLoop "fr\<lparr>charIndex := charIndex fr + 1\<rparr>" st]
      f [of WordLoop "fr\<lparr>wordIndex := wordIndex fr + 1\<rparr>" st]
    by (cases aw) (auto simp add: Let_def turnsOn_def split: if_splits)
qed

lemma exclusive_sos_resume:
  assumes "exclusive st"
  shows "exclusive (stateOf (sos_resume a st))"
proof (cases "isFinished (sos_resume a st)")
  case True
  from sos_resume_fields(6) [OF True] sos_resume_fields(1-3) [of a st] assms
  show ?thesis by (simp add: exclusive_def)
next
  case False
  from sos_resume_fields(5) [OF False] sos_resume_fields(1-3) [of a st] assms
  show ?thesis by (simp add: exclusive_def)
qed

lemma exclusive_morse_resume:
  assumes "exclusive st"
  shows "exclusive (stateOf (morse_resume k st))"
proof (cases "isFinished (morse_resume k st)")
  case True
  from morse_resume_fields(3) [OF True] morse_resume_fields(1,2) [of k st] assms
  show ?thesis by (simp add: exclusive_def)
next
  case False
  from morse_resume_fields(4) [OF False] morse_resume_fields(1,2) [of k st] assms
  show ?thesis by (simp add: exclusive_def)
qed

lemma pending_finished: "isFinished s \<longleftrightarrow> pending mk s = []"
  by (cases s) simp_all

lemma pending_task:
  "\<not> isFinished s \<Longrightarrow> \<exists>t \<in> set (pending SosTask s). isSosTask (snd t)"
  "\<not> isFinished m \<Longrightarrow> \<exists>t \<in> set (pending MorseTask m). \<not> isSosTask (snd t)"
  by (cases s; simp) (cases m; simp)

lemma consistent_replace:
  assumes c: "consistent sc" and n: "n < length (timers sc)"
    and ex: "exclusive st'"
    and sos: "sosMode st' \<Longrightarrow> sosMode (ui sc)
        \<and> (isSosTask (snd (timers sc ! n)) \<longrightarrow> (\<exists>t \<in> set new. isSosTask (snd t)))"
    and mor: "isTransmitting st' \<Longrightarrow> isTransmitting (ui sc)
        \<and> (\<not> isSosTask (snd (timers sc ! n)) \<longrightarrow> (\<exists>t \<in> set new. \<not> isSosTask (snd t)))"
    and lit: "isFlashlightOn st' \<Longrightarrow> (\<exists>t \<in> set new. holdsLight (snd t))
        \<or> (isFlashlightOn (ui sc) \<and> \<not> holdsLight (snd (timers sc ! n)))"
  shows "consistent (sc\<lparr>ui := st',
           timers := take n (timers sc) @ new @ drop (Suc n) (timers sc)\<rparr>)"
proof -
  let ?ts = "timers sc"
  let ?new = "take n ?ts @ new @ drop (Suc n) ?ts"
  have "?ts = take n ?ts @ ?ts ! n # drop (Suc n) ?ts" using n by (rule id_take_nth_drop)
  then have "set ?ts = set (take n ?ts @ ?ts ! n # drop (Suc n) ?ts)" by (rule arg_cong)
  also have "\<dots> = set (take n ?ts) \<union> {?ts ! n} \<union> set (drop (Suc n) ?ts)" by simp
  finally have "set ?ts = set (take n ?ts) \<union> {?ts ! n} \<union> set (drop (Suc n) ?ts)" .
  then have split: "\<And>t. t \<in> set ?ts \<Longrightarrow> t = ?ts ! n \<or> t \<in> set ?new" by auto
  have new: "\<And>t. t \<in> set new \<Longrightarrow> t \<in> set ?new" by simp
  have a: "\<exists>t \<in> set ?new. isSosTask (snd t)" if "sosMode st'"
  proof -
    from sos [OF that] c obtain t where "t \<in> set ?ts" "isSosTask (snd t)"
      by (auto simp: consistent_def)
    with split [of t] sos [OF that] new show ?thesis by blast
  qed
  have b: "\<exists>t \<in> set ?new. \<not> isSosTask (snd t)" if "isTransmitting st'"
  proof -
    from mor [OF that] c obtain t where "t \<in> set ?ts" "\<not> isSosTask (snd t)"
      by (auto simp: consistent_def)
    with split [of t] mor [OF that] new show ?thesis by blast
  qed
  have l: "\<exists>t \<in> set ?new. holdsLight (snd t)" if "isFlashlightOn st'"
  proof -
    from lit [OF that] show ?thesis
    proof
      assume "\<exists>t \<in> set new. holdsLight (snd t)"
      with new show ?thesis by blast
    next
      assume h: "isFlashlightOn (ui sc) \<and> \<not> holdsLight (snd (?ts ! n))"
      with c obtain t where "t \<in> set ?ts" "holdsLight (snd t)"
        by (auto simp: consistent_def)
      with split [of t] h show ?thesis by blast
    qed
  qed
  from ex a b l show ?thesis by (simp add: consistent_def)
qed

lemma consistent_wake:
  assumes "consistent sc"
  shows "consistent (wake n sc)"
proof (cases "n < length (timers sc)")
  case False
  with assms show ?thesis by (simp add: wake_def)
next
  case True
  from assms have ex: "exclusive (ui sc)" by (simp add: consistent_def)
  show ?thesis
  proof (cases "snd (timers sc ! n)")
    case (SosTask a)
    let ?s = "sos_resume a (ui sc)"
    have "consistent (sc\<lparr>ui := stateOf ?s,
            timers := take n (timers sc) @ pending SosTask ?s @ drop (Suc n) (timers sc)\<rparr>)"
    proof (rule consistent_replace [OF assms True])
      show "exclusive (stateOf ?s)" using ex by (rule exclusive_sos_resume)
    next
      assume m: "sosMode (stateOf ?s)"
      then have "\<not> isFinished ?s" using sos_resume_fields(6) [of a "ui sc"] by blast
      with m sos_resume_fields(4) [of a "ui sc"] pending_task(1) [of ?s]
      show "sosMode (ui sc) \<and> (isSosTask (snd (timers sc ! n)) \<longrightarrow>
              (\<exists>t \<in> set (pending SosTask ?s). isSosTask (snd t)))"
        by blast
    next
      assume "isTransmitting (stateOf ?s)"
      then show "isTransmitting (ui sc) \<and> (\<not> isSosTask (snd (timers sc ! n)) \<longrightarrow>
              (\<exists>t \<in> set (pending SosTask ?s). \<not> isSosTask (snd t)))"
        by (simp add: sos_resume_fields(1) SosTask)
    next
      assume "isFlashlightOn (stateOf ?s)"
      from sos_resume_fields(7) [OF this]
      show "(\<exists>t \<in> set (pending SosTask ?s). holdsLight (snd t))
            \<or> (isFlashlightOn (ui sc) \<and> \<not> holdsLight (snd (timers sc ! n)))"
        by (simp add: turnsOn_def SosTask)
    qed
    with True SosTask show ?thesis by (simp add: wake_def Let_def)
  next
    case (MorseTask k)
    let ?s = "morse_resume k (ui sc)"
    have "consistent (sc\<lparr>ui := stateOf ?s,
            timers := take n (timers sc) @ pending MorseTask ?s @ drop (Suc n) (timers sc)\<rparr>)"
    proof (rule consistent_replace [OF assms True])
      show "exclusive (stateOf ?s)" using ex by (rule exclusive_morse_resume)
    next
      assume "sosMode (stateOf ?s)"
      then show "sosMode (ui sc) \<and> (isSosTask (snd (timers sc ! n)) \<longrightarrow>
              (\<exists>t \<in> set (pending MorseTask ?s). isSosTask (snd t)))"
        by (simp add: morse_resume_fields(1) MorseTask)
    next
      assume m: "isTransmitting (stateOf ?s)"
      then have nf: "\<not> isFinished ?s" using morse_resume_fields(3) [of k "ui sc"] by blast
      with m morse_resume_fields(4) [OF nf] pending_task(2) [of ?s]
      show "isTransmitting (ui sc) \<and> (\<not> isSosTask (snd (timers sc ! n)) \<longrightarrow>
              (\<exists>t \<in> set (pending MorseTask ?s). \<not> isSosTask (snd t)))"
        by blast
    next
      assume "isFlashlightOn (stateOf ?s)"
      from morse_resume_fields(5) [OF this]
      show "(\<exists>t \<in> set (pending MorseTask ?s). holdsLight (snd t))
            \<or> (isFlashlightOn (ui sc) \<and> \<not> holdsLight (snd (timers sc ! n)))"
        by (simp add: turnsOn_def MorseTask)
    qed
    with True MorseTask show ?thesis by (simp add: wake_def Let_def)
  qed
qed

lemma exclusive_transmit:
  assumes "exclusive st"
  shows "exclusive (stateOf (snd (transmitMorseWithText t st)))"
proof (cases "morsePrelude t st")
  case (Inl a)
  with assms show ?thesis by (simp add: transmitMorseWithText_def)
next
  case (Inr st1)
  then have s1: "\<not> sosMode st1" "\<not> sosActiveRef st1" "isTransmitting st1" "morseActiveRef st1"
    using assms
    by (auto simp: morsePrelude_def Let_def stopSOS_def exclusive_def split: if_splits)
  let ?s = "morse_from WordLoop (firstFrame t) st1"
  from morse_from_fields [of WordLoop "firstFrame t" st1] s1
  have "exclusive (stateOf ?s)" by (cases "isFinished ?s") (simp_all add: exclusive_def)
  with Inr show ?thesis by (simp add: transmitMorseWithText_def)
qed

lemma exclusive_startSOS:
  assumes "exclusive st"
  shows "exclusive (stateOf (snd (startSOS st)))"
  using assms
  by (auto simp: startSOS_def Let_def sos_while_def sos_dots1_def stopMorse_def exclusive_def)

lemma exclusive_wake:
  assumes "exclusive (ui sc)"
  shows "exclusive (ui (wake n sc))"
proof (cases "n < length (timers sc)")
  case False
  with assms show ?thesis by (simp add: wake_def)
next
  case True
  show ?thesis
  proof (cases "snd (timers sc ! n)")
    case (SosTask a)
    with True exclusive_sos_resume [OF assms, of a] show ?thesis
      by (simp add: wake_def Let_def)
  next
    case (MorseTask k)
    with True exclusive_morse_resume [OF assms, of k] show ?thesis
      by (simp add: wake_def Let_def)
  qed
qed

lemma exclusive_handle:
  assumes "exclusive (ui sc)"
  shows "exclusive (ui (snd (handle e sc)))"
proof (cases e)
  case StartSOS
  with exclusive_startSOS [OF assms] show ?thesis by (simp add: launch_def)
next
  case StopSOS
  with assms show ?thesis by (simp add: stopSOS_def exclusive_def)
next
  case HandleSOSToggle
  with exclusive_startSOS [OF assms] assms show ?thesis
    by (simp add: launch_def stopSOS_def exclusive_def)
next
  case TransmitMorse
  with exclusive_transmit [OF assms, of "morseText (ui sc)"] assms show ?thesis
    by (simp add: launch_def transmitMorse_def)
next
  case (TransmitMorseWithText t)
  with exclusive_transmit [OF assms, of t] show ?thesis by (simp add: launch_def)
next
  case StopMorse
  with assms show ?thesis by (simp add: stopMorse_def exclusive_def)
next
  case ToggleFlashlight
  with assms show ?thesis by (simp add: toggleFlashlight_def exclusive_def)
next
  case (SetMorseText t)
  with assms show ?thesis by (simp add: exclusive_def)
next
  case (TimerFires n)
  with exclusive_wake [OF assms, of n] show ?thesis by simp
qed

lemma exclusive_after:
  "exclusive (ui sc) \<Longrightarrow> exclusive (ui (after evs sc))"
proof (induction evs arbitrary: sc)
  case Nil
  then show ?case by (simp add: after_def)
next
  case (Cons e evs)
  from Cons.IH [OF exclusive_handle [OF Cons.prems, of e]] show ?case
    by (simp add: after_def)
qed

lemma consistent_quiet_event:
  assumes "consistent sc" and "startsNothing e"
  shows "consistent (snd (handle e sc))"
proof (cases e)
  case (TimerFires n)
  with consistent_wake [OF assms(1), of n] show ?thesis by simp
next
  case StopSOS
  with assms(1) show ?thesis by (auto simp: consistent_def exclusive_def stopSOS_def)
next
  case StopMorse
  with assms(1) show ?thesis by (auto simp: consistent_def exclusive_def stopMorse_def)
qed (use assms(2) in simp_all)

lemma modes_stay_off:
  assumes "startsNothing e"
  shows "\<not> sosMode (ui sc) \<Longrightarrow> \<not> sosMode (ui (snd (handle e sc)))"
    and "\<not> isTransmitting (ui sc) \<Longrightarrow> \<not> isTransmitting (ui (snd (handle e sc)))"
proof -
  have w: "\<not> sosMode (ui (wake n sc))" if "\<not> sosMode (ui sc)" for n
  proof (cases "n < length (timers sc)")
    case False
    with that show ?thesis by (simp add: wake_def)
  next
    case True
    show ?thesis
    proof (cases "snd (timers sc ! n)")
      case (SosTask a)
      with True that sos_resume_fields(4) [of a "ui sc"] show ?thesis
        by (auto simp: wake_def Let_def)
    next
      case (MorseTask k)
      with True that morse_resume_fields(1) [of k "ui sc"] show ?thesis
        by (simp add: wake_def Let_def)
    qed
  qed
  have v: "\<not> isTransmitting (ui (wake n sc))" if "\<not> isTransmitting (ui sc)" for n
  proof (cases "n < length (timers sc)")
    case False
    with that show ?thesis by (simp add: wake_def)
  next
    case True
    show ?thesis
    proof (cases "snd (timers sc ! n)")
      case (SosTask a)
      with True that sos_resume_fields(1) [of a "ui sc"] show ?thesis
        by (simp add: wake_def Let_def)
    next
      case (MorseTask k)
      with True that morse_resume_fields(3,4) [of k "ui sc"] show ?thesis
        by (auto simp: wake_def Let_def)
    qed
  qed
  show "\<not> sosMode (ui sc) \<Longrightarrow> \<not> sosMode (ui (snd (handle e sc)))"
    using assms w by (cases e) (simp_all add: stopSOS_def stopMorse_def)
  show "\<not> isTransmitting (ui sc) \<Longrightarrow> \<not> isTransmitting (ui (snd (handle e sc)))"
    using assms v by (cases e) (simp_all add: stopSOS_def stopMorse_def)
qed

lemma quiet_events_keep:
  assumes "\<forall>e \<in> set evs. startsNothing e" and "consistent sc"
  shows "consistent (after evs sc)"
    and "\<not> sosMode (ui sc) \<Longrightarrow> \<not> sosMode (ui (after evs sc))"
    and "\<not> isTransmitting (ui sc) \<Longrightarrow> \<not> isTransmitting (ui (after evs sc))"
  using assms
proof (induction evs arbitrary: sc)
  case Nil
  { case 1 then show ?case by (simp add: after_def) }
  { case 2 then show ?case by (simp add: after_def) }
  { case 3 then show ?case by (simp add: after_def) }
next
  case (Cons e evs)
  { case 1
    then have "consistent (snd (handle e sc))" by (simp add: consistent_quiet_event)
    with 1 Cons.IH(1) [of "snd (handle e sc)"] show ?case by (simp add: after_def) }
  { case 2
    then have "consistent (snd (handle e sc))" "\<not> sosMode (ui (snd (handle e sc)))"
      by (simp_all add: consistent_quiet_event modes_stay_off)
    with 2 Cons.IH(2) [of "snd (handle e sc)"] show ?case by (simp add: after_def) }
  { case 3
    then have "consistent (snd (handle e sc))" "\<not> isTransmitting (ui (snd (handle e sc)))"
      by (simp_all add: consistent_quiet_event modes_stay_off)
    with 3 Cons.IH(3) [of "snd (handle e sc)"] show ?case by (simp add: after_def) }
qed

lemma consistent_done:
  assumes "consistent sc" and "timers sc = []"
  shows "transmissionState (ui sc) = Idle \<and> \<not> isFlashlightOn (ui sc)"
  using assms by (auto simp: consistent_def transmissionState_def)

lemma consistent_tracked:
  "consistent sc \<longleftrightarrow>
     tracked sc \<and> (isFlashlightOn (ui sc) \<longrightarrow> (\<exists>t \<in> set (timers sc). holdsLight (snd t)))"
  by (auto simp: consistent_def tracked_def)

lemma tracked_replace:
  assumes c: "tracked sc" and n: "n < length (timers sc)"
    and ex: "exclusive st'"
    and sos: "sosMode st' \<Longrightarrow> sosMode (ui sc)
        \<and> (isSosTask (snd (timers sc ! n)) \<longrightarrow> (\<exists>t \<in> set new. isSosTask (snd t)))"
    and mor: "isTransmitting st' \<Longrightarrow> isTransmitting (ui sc)
        \<and> (\<not> isSosTask (snd (timers sc ! n)) \<longrightarrow> (\<exists>t \<in> set new. \<not> isSosTask (snd t)))"
  shows "tracked (sc\<lparr>ui := st',
           timers := take n (timers sc) @ new @ drop (Suc n) (timers sc)\<rparr>)"
proof -
  let ?ts = "timers sc"
  let ?new = "take n ?ts @ new @ drop (Suc n) ?ts"
  have "?ts = take n ?ts @ ?ts ! n # drop (Suc n) ?ts" using n by (rule id_take_nth_drop)
  then have "set ?ts = set (take n ?ts @ ?ts ! n # drop (Suc n) ?ts)" by (rule arg_cong)
  also have "\<dots> = set (take n ?ts) \<union> {?ts ! n} \<union> set (drop (Suc n) ?ts)" by simp
  finally have "set ?ts = set (take n ?ts) \<union> {?ts ! n} \<union> set (drop (Suc n) ?ts)" .
  then have split: "\<And>t. t \<in> set ?ts \<Longrightarrow> t = ?ts ! n \<or> t \<in> set ?new" by auto
  have new: "\<And>t. t \<in> set new \<Longrightarrow> t \<in> set ?new" by simp
  have a: "\<exists>t \<in> set ?new. isSosTask (snd t)" if "sosMode st'"
  proof -
    from sos [OF that] c obtain t where "t \<in> set ?ts" "isSosTask (snd t)"
      by (auto simp: tracked_def)
    with split [of t] sos [OF that] new show ?thesis by blast
  qed
  have b: "\<exists>t \<in> set ?new. \<not> isSosTask (snd t)" if "isTransmitting st'"
  proof -
    from mor [OF that] c obtain t where "t \<in> set ?ts" "\<not> isSosTask (snd t)"
      by (auto simp: tracked_def)
    with split [of t] mor [OF that] new show ?thesis by blast
  qed
  from ex a b show ?thesis by (simp add: tracked_def)
qed

lemma tracked_wake:
  assumes "tracked sc"
  shows "tracked (wake n sc)"
proof (cases "n < length (timers sc)")
  case False
  with assms show ?thesis by (simp add: wake_def)
next
  case True
  from assms have ex: "exclusive (ui sc)" by (simp add: tracked_def)
  show ?thesis
  proof (cases "snd (timers sc ! n)")
    case (SosTask a)
    let ?s = "sos_resume a (ui sc)"
    have "tracked (sc\<lparr>ui := stateOf ?s,
            timers := take n (timers sc) @ pending SosTask ?s @ drop (Suc n) (timers sc)\<rparr>)"
    proof (rule tracked_replace [OF assms True])
      show "exclusive (stateOf ?s)" using ex by (rule exclusive_sos_resume)
    next
      assume m: "sosMode (stateOf ?s)"
      then have "\<not> isFinished ?s" using sos_resume_fields(6) [of a "ui sc"] by blast
      with m sos_resume_fields(4) [of a "ui sc"] pending_task(1) [of ?s]
      show "sosMode (ui sc) \<and> (isSosTask (snd (timers sc ! n)) \<longrightarrow>
              (\<exists>t \<in> set (pending SosTask ?s). isSosTask (snd t)))"
        by blast
    next
      assume "isTransmitting (stateOf ?s)"
      then show "isTransmitting (ui sc) \<and> (\<not> isSosTask (snd (timers sc ! n)) \<longrightarrow>
              (\<exists>t \<in> set (pending SosTask ?s). \<not> isSosTask (snd t)))"
        by (simp add: sos_resume_fields(1) SosTask)
    qed
    with True SosTask show ?thesis by (simp add: wake_def Let_def)
  next
    case (MorseTask k)
    let ?s = "morse_resume k (ui sc)"
    have "tracked (sc\<lparr>ui := stateOf ?s,
            timers := take n (timers sc) @ pending MorseTask ?s @ drop (Suc n) (timers sc)\<rparr>)"
    proof (rule tracked_replace [OF assms True])
      show "exclusive (stateOf ?s)" using ex by (rule exclusive_morse_resume)
    next
      assume "sosMode (stateOf ?s)"
      then show "sosMode (ui sc) \<and> (isSosTask (snd (timers sc ! n)) \<longrightarrow>
              (\<exists>t \<in> set (pending MorseTask ?s). isSosTask (snd t)))"
        by (simp add: morse_resume_fields(1) MorseTask)
    next
      assume m: "isTransmitting (stateOf ?s)"
      then have nf: "\<not> isFinished ?s" using morse_resume_fields(3) [of k "ui sc"] by blast
      with m morse_resume_fields(4) [OF nf] pending_task(2) [of ?s]
      show "isTransmitting (ui sc) \<and> (\<not> isSosTask (snd (timers sc ! n)) \<longrightarrow>
              (\<exists>t \<in> set (pending MorseTask ?s). \<not> isSosTask (snd t)))"
        by blast
    qed
    with True MorseTask show ?thesis by (simp add: wake_def Let_def)
  qed
qed

lemma tracked_transmit:
  assumes "tracked sc"
  shows "tracked (snd (launch MorseTask (transmitMorseWithText t (ui sc)) sc))"
proof (cases "morsePrelude t (ui sc)")
  case (Inl a)
  with assms show ?thesis by (simp add: transmitMorseWithText_def launch_def)
next
  case (Inr st1)
  let ?s = "morse_from WordLoop (firstFrame t) st1"
  from assms have ex: "exclusive (ui sc)" by (simp add: tracked_def)
  have s1: "\<not> sosMode st1"
    using Inr ex
    by (auto simp: morsePrelude_def Let_def stopSOS_def exclusive_def split: if_splits)
  have t: "transmitMorseWithText t (ui sc) = (None, ?s)"
    using Inr by (simp add: transmitMorseWithText_def)
  note f = morse_from_fields [of WordLoop "firstFrame t" st1]
  from exclusive_transmit [OF ex, of t] have e: "exclusive (stateOf ?s)" by (simp add: t)
  have m: "\<exists>t \<in> set (timers sc @ pending MorseTask ?s). \<not> isSosTask (snd t)"
    if "isTransmitting (stateOf ?s)"
  proof -
    from that f have "\<not> isFinished ?s" by blast
    with pending_task(2) [of ?s] show ?thesis by auto
  qed
  from f s1 have "\<not> sosMode (stateOf ?s)" by simp
  with e m show ?thesis by (simp add: t launch_def tracked_def)
qed

lemma tracked_startSOS:
  assumes "tracked sc"
  shows "tracked (snd (launch SosTask (startSOS (ui sc)) sc))"
proof (cases "granted (ui sc)")
  case False
  with assms show ?thesis by (simp add: startSOS_def launch_def)
next
  case True
  let ?st2 = "(if isTransmitting (ui sc) then stopMorse (ui sc) else ui sc)
                \<lparr>sosMode := True, sosActiveRef := True\<rparr>"
  let ?s = "Sleeping (?st2\<lparr>isFlashlightOn := True\<rparr>) SHORT_FLASH (Dots1Flash 0)"
  from assms have ex: "exclusive (ui sc)" by (simp add: tracked_def)
  have t: "startSOS (ui sc) = (None, ?s)"
    using True by (simp add: startSOS_def Let_def sos_while_def sos_dots1_def)
  from exclusive_startSOS [OF ex] have e: "exclusive (stateOf ?s)" by (simp add: t)
  have "\<not> isTransmitting (stateOf ?s)" using ex by (simp add: stopMorse_def exclusive_def)
  with e show ?thesis by (simp add: t launch_def tracked_def)
qed

lemma tracked_handle:
  assumes "tracked sc"
  shows "tracked (snd (handle e sc))"
proof (cases e)
  case StartSOS
  with tracked_startSOS [OF assms] show ?thesis by simp
next
  case StopSOS
  with assms show ?thesis by (auto simp: tracked_def exclusive_def stopSOS_def)
next
  case HandleSOSToggle
  with tracked_startSOS [OF assms] assms show ?thesis
    by (auto simp: tracked_def exclusive_def stopSOS_def)
next
  case TransmitMorse
  with tracked_transmit [OF assms, of "morseText (ui sc)"] assms show ?thesis
    by (simp add: transmitMorse_def launch_def)
next
  case (TransmitMorseWithText t)
  with tracked_transmit [OF assms, of t] show ?thesis by simp
next
  case StopMorse
  with assms show ?thesis by (auto simp: tracked_def exclusive_def stopMorse_def)
next
  case ToggleFlashlight
  with assms show ?thesis by (auto simp: tracked_def exclusive_def toggleFlashlight_def)
next
  case (SetMorseText t)
  with assms show ?thesis by (auto simp: tracked_def exclusive_def)
next
  case (TimerFires n)
  with tracked_wake [OF assms, of n] show ?thesis by simp
qed

lemma tracked_after: "tracked sc \<Longrightarrow> tracked (after evs sc)"
proof (induction evs arbitrary: sc)
  case Nil
  then show ?case by (simp add: after_def)
next
  case (Cons e evs)
  from Cons.IH [OF tracked_handle [OF Cons.prems, of e]] show ?case
    by (simp add: after_def)
qed

lemma tracked_mounted: "tracked (mounted g)"
  by (simp add: tracked_def mounted_def exclusive_def)

lemma after_append: "after (evs @ evs') sc = after evs' (after evs sc)"
  by (simp add: after_def)

lemma switch_to_morse:
  assumes "tracked sc" and "granted (ui sc)" and "sosMode (ui sc)" and "trim t \<noteq> []"
  shows "consistent (snd (handle (TransmitMorseWithText t) sc))"
    and "\<not> sosMode (ui (snd (handle (TransmitMorseWithText t) sc)))"
proof -
  let ?st1 = "(stopSOS (ui sc))\<lparr>isTransmitting := True, morseActiveRef := True,
                currentChar := None\<rparr>"
  let ?s = "morse_from WordLoop (firstFrame t) ?st1"
  have t: "transmitMorseWithText t (ui sc) = (None, ?s)"
    using assms(2-4) by (simp add: transmitMorseWithText_def morsePrelude_def Let_def)
  note f = morse_from_fields [of WordLoop "firstFrame t" ?st1]
  have off: "\<not> isFlashlightOn ?st1" "\<not> sosMode ?st1" by (simp_all add: stopSOS_def)
  from tracked_transmit [OF assms(1), of t]
  have tr: "tracked (snd (handle (TransmitMorseWithText t) sc))" by simp
  have lit: "\<exists>t \<in> set (timers sc @ pending MorseTask ?s). holdsLight (snd t)"
    if "isFlashlightOn (stateOf ?s)"
    using that f off by (auto simp: turnsOn_def)
  from tr lit show "consistent (snd (handle (TransmitMorseWithText t) sc))"
    by (simp add: consistent_tracked t launch_def)
  from f off show "\<not> sosMode (ui (snd (handle (TransmitMorseWithText t) sc)))"
    by (simp add: t launch_def)
qed

lemma switch_to_sos:
  assumes "tracked sc" and "granted (ui sc)"
  shows "consistent (snd (handle StartSOS sc))"
    and "\<not> isTransmitting (ui (snd (handle StartSOS sc)))"
proof -
  let ?st2 = "(if isTransmitting (ui sc) then stopMorse (ui sc) else ui sc)
                \<lparr>sosMode := True, sosActiveRef := True\<rparr>"
  let ?s = "Sleeping (?st2\<lparr>isFlashlightOn := True\<rparr>) SHORT_FLASH (Dots1Flash 0)"
  from assms(1) have ex: "exclusive (ui sc)" by (simp add: tracked_def)
  have t: "startSOS (ui sc) = (None, ?s)"
    using assms(2) by (simp add: startSOS_def Let_def sos_while_def sos_dots1_def)
  from tracked_startSOS [OF assms(1)] have tr: "tracked (snd (handle StartSOS sc))" by simp
  then show "consistent (snd (handle StartSOS sc))"
    by (simp add: consistent_tracked t launch_def)
  show "\<not> isTransmitting (ui (snd (handle StartSOS sc)))"
    using ex by (simp add: t launch_def stopMorse_def exclusive_def)
qed

text \<open>
  What the mode flags guarantee.  Whatever the handlers and timers do from the mounted
  screen on, at most one of the two mode flags is set, and each agrees with the
  cancellation flag of its loop.  \<open>transmitMorseWithText\<close> called while SOS is running
  first calls \<open>stopSOS\<close>, which switches the torch off and makes the transmitter idle, and
  only then sets the Morse flags and enters the loop, whose first pulse starts from that
  state; \<open>startSOS\<close> called during a Morse transmission does the same with \<open>stopMorse\<close>.
  In every screen that is reached from the mounted one, when one mode is running and the
  other one is started, then after any further timers and stops the mode that was stopped
  is not set again, and once every loop has returned the transmitter is idle and the torch
  is off.  This is about the flags only: the loop that was cancelled is still there.
\<close>

lemma mode_flags_exclusive:
  "exclusive (ui (after evs (mounted g)))
   \<and> (granted st \<and> sosMode st \<and> trim t \<noteq> [] \<longrightarrow>
        morsePrelude t st
          = Inr ((stopSOS st)\<lparr>isTransmitting := True, morseActiveRef := True,
                              currentChar := None\<rparr>)
        \<and> transmitMorseWithText t st
          = (None, morse_from WordLoop (firstFrame t)
                     ((stopSOS st)\<lparr>isTransmitting := True, morseActiveRef := True,
                                   currentChar := None\<rparr>))
        \<and> \<not> isFlashlightOn (stopSOS st) \<and> \<not> sosMode (stopSOS st)
        \<and> \<not> sosActiveRef (stopSOS st)
        \<and> (exclusive st \<longrightarrow> transmissionState (stopSOS st) = Idle))
   \<and> (granted st \<and> isTransmitting st \<longrightarrow>
        startSOS st
          = (None, sos_while ((stopMorse st)\<lparr>sosMode := True, sosActiveRef := True\<rparr>))
        \<and> \<not> isFlashlightOn (stopMorse st) \<and> \<not> isTransmitting (stopMorse st)
        \<and> \<not> morseActiveRef (stopMorse st)
        \<and> (exclusive st \<longrightarrow> transmissionState (stopMorse st) = Idle))
   \<and> (granted (ui (after evs (mounted g))) \<and> sosMode (ui (after evs (mounted g)))
        \<and> trim t \<noteq> [] \<and> (\<forall>e \<in> set quietEvs. startsNothing e) \<longrightarrow>
        \<not> sosMode (ui (after (evs @ TransmitMorseWithText t # quietEvs) (mounted g)))
        \<and> (timers (after (evs @ TransmitMorseWithText t # quietEvs) (mounted g)) = [] \<longrightarrow>
             transmissionState
               (ui (after (evs @ TransmitMorseWithText t # quietEvs) (mounted g))) = Idle
             \<and> \<not> isFlashlightOn
                 (ui (after (evs @ TransmitMorseWithText t # quietEvs) (mounted g)))))
   \<and> (granted (ui (after evs (mounted g))) \<and> isTransmitting (ui (after evs (mounted g)))
        \<and> (\<forall>e \<in> set quietEvs. startsNothing e) \<longrightarrow>
        \<not> isTransmitting (ui (after (evs @ StartSOS # quietEvs) (mounted g)))
        \<and> (timers (after (evs @ StartSOS # quietEvs) (mounted g)) = [] \<longrightarrow>
             transmissionState (ui (after (evs @ StartSOS # quietEvs) (mounted g))) = Idle
             \<and> \<not> isFlashlightOn (ui (after (evs @ StartSOS # quietEvs) (mounted g)))))"
proof -
  let ?sc = "after evs (mounted g)"
  have a: "exclusive (ui ?sc)"
    by (rule exclusive_after) (simp add: mounted_def exclusive_def)
  have tr: "tracked ?sc" using tracked_mounted by (rule tracked_after)
  have b: "morsePrelude t st
          = Inr ((stopSOS st)\<lparr>isTransmitting := True, morseActiveRef := True,
                              currentChar := None\<rparr>)
        \<and> transmitMorseWithText t st
          = (None, morse_from WordLoop (firstFrame t)
                     ((stopSOS st)\<lparr>isTransmitting := True, morseActiveRef := True,
                                   currentChar := None\<rparr>))"
    if "granted st" "sosMode st" "trim t \<noteq> []"
    using that by (simp add: transmitMorseWithText_def morsePrelude_def Let_def)
  have b': "startSOS st
          = (None, sos_while ((stopMorse st)\<lparr>sosMode := True, sosActiveRef := True\<rparr>))"
    if "granted st" "isTransmitting st"
    using that by (simp add: startSOS_def Let_def)
  have stops: "\<not> isFlashlightOn (stopSOS st)" "\<not> sosMode (stopSOS st)"
    "\<not> sosActiveRef (stopSOS st)" "\<not> isFlashlightOn (stopMorse st)"
    "\<not> isTransmitting (stopMorse st)" "\<not> morseActiveRef (stopMorse st)"
    "exclusive st \<longrightarrow> sosMode st \<longrightarrow> transmissionState (stopSOS st) = Idle"
    "exclusive st \<longrightarrow> isTransmitting st \<longrightarrow> transmissionState (stopMorse st) = Idle"
    by (auto simp: stopSOS_def stopMorse_def exclusive_def transmissionState_def)
  have c: "\<not> sosMode (ui (after (evs @ TransmitMorseWithText t # quietEvs) (mounted g)))
        \<and> (timers (after (evs @ TransmitMorseWithText t # quietEvs) (mounted g)) = [] \<longrightarrow>
             transmissionState
               (ui (after (evs @ TransmitMorseWithText t # quietEvs) (mounted g))) = Idle
             \<and> \<not> isFlashlightOn
                 (ui (after (evs @ TransmitMorseWithText t # quietEvs) (mounted g))))"
    if h: "granted (ui ?sc)" "sosMode (ui ?sc)" "trim t \<noteq> []"
      "\<forall>e \<in> set quietEvs. startsNothing e"
  proof -
    let ?sc1 = "snd (handle (TransmitMorseWithText t) ?sc)"
    have e: "after (evs @ TransmitMorseWithText t # quietEvs) (mounted g)
               = after quietEvs ?sc1"
      by (simp add: after_def)
    from switch_to_morse [OF tr h(1-3)]
    have c1: "consistent ?sc1" and m1: "\<not> sosMode (ui ?sc1)" .
    from quiet_events_keep(1) [OF h(4) c1] quiet_events_keep(2) [OF h(4) c1 m1]
    have "consistent (after quietEvs ?sc1)" "\<not> sosMode (ui (after quietEvs ?sc1))" .
    with consistent_done [of "after quietEvs ?sc1"] show ?thesis by (simp only: e) blast
  qed
  have c': "\<not> isTransmitting (ui (after (evs @ StartSOS # quietEvs) (mounted g)))
        \<and> (timers (after (evs @ StartSOS # quietEvs) (mounted g)) = [] \<longrightarrow>
             transmissionState (ui (after (evs @ StartSOS # quietEvs) (mounted g))) = Idle
             \<and> \<not> isFlashlightOn (ui (after (evs @ StartSOS # quietEvs) (mounted g))))"
    if h: "granted (ui ?sc)" "\<forall>e \<in> set quietEvs. startsNothing e"
  proof -
    let ?sc1 = "snd (handle StartSOS ?sc)"
    have e: "after (evs @ StartSOS # quietEvs) (mounted g) = after quietEvs ?sc1"
      by (simp add: after_def)
    from switch_to_sos [OF tr h(1)]
    have c1: "consistent ?sc1" and m1: "\<not> isTransmitting (ui ?sc1)" .
    from quiet_events_keep(1) [OF h(2) c1] quiet_events_keep(3) [OF h(2) c1 m1]
    have "consistent (after quietEvs ?sc1)" "\<not> isTransmitting (ui (after quietEvs ?sc1))" .
    with consistent_done [of "after quietEvs ?sc1"] show ?thesis by (simp only: e) blast
  qed
  from a b b' stops c c' show ?thesis by blast
qed

lemma mode_flags_exclusive_example:
  "transmissionState (ui (after [StartSOS] (mounted True))) = RunningSOS
   \<and> isFlashlightOn (ui (after [StartSOS] (mounted True)))
   \<and> transmissionState (stopSOS (ui (after [StartSOS] (mounted True)))) = Idle
   \<and> transmissionState (ui (after [StartSOS, TransmitMorseWithText ''E''] (mounted True)))
       = RunningMorse
   \<and> length (timers (after [StartSOS, TransmitMorseWithText ''E''] (mounted True))) = 2
   \<and> timers (after [StartSOS, TransmitMorseWithText ''E'', TimerFires 0, TimerFires 0,
                     TimerFires 0] (mounted True)) = []
   \<and> transmissionState
        (ui (after [StartSOS, TransmitMorseWithText ''E'', TimerFires 0, TimerFires 0,
                    TimerFires 0] (mounted True))) = Idle
   \<and> \<not> isFlashlightOn
        (ui (after [StartSOS, TransmitMorseWithText ''E'', TimerFires 0, TimerFires 0,
                    TimerFires 0] (mounted True)))
   \<and> transmissionState (ui (after [TransmitMorseWithText ''SOS''] (mounted True)))
       = RunningMorse
   \<and> transmissionState (stopMorse (ui (after [TransmitMorseWithText ''SOS''] (mounted True))))
       = Idle
   \<and> transmissionState (ui (after [TransmitMorseWithText ''SOS'', StartSOS] (mounted True)))
       = RunningSOS
   \<and> timers (after [TransmitMorseWithText ''SOS'', StartSOS, StopSOS, TimerFires 0,
                     TimerFires 0, TimerFires 0, TimerFires 0, TimerFires 0] (mounted True))
       = []
   \<and> transmissionState
        (ui (after [TransmitMorseWithText ''SOS'', StartSOS, StopSOS, TimerFires 0,
                    TimerFires 0, TimerFires 0, TimerFires 0, TimerFires 0] (mounted True)))
       = Idle"
proof -
  let ?sc = "after [StartSOS] (mounted True)"
  let ?evs = "[TimerFires 0, TimerFires 0, TimerFires 0]"
  let ?mc = "after [TransmitMorseWithText ''SOS''] (mounted True)"
  let ?qs = "[StopSOS, TimerFires 0, TimerFires 0, TimerFires 0, TimerFires 0, TimerFires 0]"
  have h: "granted (ui ?sc)" "sosMode (ui ?sc)" "trim ''E'' \<noteq> []"
    "\<forall>e \<in> set ?evs. startsNothing e" "exclusive (ui ?sc)"
    by code_simp+
  have k: "granted (ui ?mc)" "isTransmitting (ui ?mc)"
    "\<forall>e \<in> set ?qs. startsNothing e" "exclusive (ui ?mc)"
    by code_simp+
  have e: "[StartSOS] @ TransmitMorseWithText ''E'' # ?evs
             = [StartSOS, TransmitMorseWithText ''E'', TimerFires 0, TimerFires 0,
                TimerFires 0]"
    "[TransmitMorseWithText ''SOS''] @ StartSOS # ?qs
       = [TransmitMorseWithText ''SOS'', StartSOS, StopSOS, TimerFires 0,
          TimerFires 0, TimerFires 0, TimerFires 0, TimerFires 0]"
    by simp_all
  have v: "transmissionState (ui ?sc) = RunningSOS" "isFlashlightOn (ui ?sc)"
    "transmissionState (ui (after [StartSOS, TransmitMorseWithText ''E''] (mounted True)))
       = RunningMorse"
    "length (timers (after [StartSOS, TransmitMorseWithText ''E''] (mounted True))) = 2"
    "timers (after [StartSOS, TransmitMorseWithText ''E'', TimerFires 0, TimerFires 0,
                     TimerFires 0] (mounted True)) = []"
    "transmissionState (ui ?mc) = RunningMorse"
    "transmissionState (ui (after [TransmitMorseWithText ''SOS'', StartSOS] (mounted True)))
       = RunningSOS"
    "timers (after [TransmitMorseWithText ''SOS'', StartSOS, StopSOS, TimerFires 0,
                     TimerFires 0, TimerFires 0, TimerFires 0, TimerFires 0] (mounted True))
       = []"
    by code_simp+
  note a = mode_flags_exclusive [where evs = "[StartSOS]" and g = True and t = "''E''"
      and quietEvs = ?evs and st = "ui ?sc", unfolded e]
  note b = mode_flags_exclusive [where evs = "[TransmitMorseWithText ''SOS'']" and g = True
      and quietEvs = ?qs and st = "ui ?mc", unfolded e]
  from a h have "transmissionState (stopSOS (ui ?sc)) = Idle"
    "timers (after [StartSOS, TransmitMorseWithText ''E'', TimerFires 0, TimerFires 0,
                    TimerFires 0] (mounted True)) = [] \<longrightarrow>
       transmissionState
         (ui (after [StartSOS, TransmitMorseWithText ''E'', TimerFires 0, TimerFires 0,
                     TimerFires 0] (mounted True))) = Idle
       \<and> \<not> isFlashlightOn
           (ui (after [StartSOS, TransmitMorseWithText ''E'', TimerFires 0, TimerFires 0,
                       TimerFires 0] (mounted True)))"
    by blast+
  moreover from b k have "transmissionState (stopMorse (ui ?mc)) = Idle"
    "timers (after [TransmitMorseWithText ''SOS'', StartSOS, StopSOS, TimerFires 0,
                    TimerFires 0, TimerFires 0, TimerFires 0, TimerFires 0] (mounted True))
       = [] \<longrightarrow>
     transmissionState
       (ui (after [TransmitMorseWithText ''SOS'', StartSOS, StopSOS, TimerFires 0,
                   TimerFires 0, TimerFires 0, TimerFires 0, TimerFires 0] (mounted True)))
       = Idle"
    by blast+
  ultimately show ?thesis using v by blast
qed

text \<open>
  Claim C2.  Starting one mode while the other is active is to stop the other one first,
  so that at most one transmission is ever active.  The start functions do call the stop
  function of the other mode, but that only clears the flag: the loop that was cancelled
  is still sleeping in its \<open>await\<close>, and when its timer fires it switches the torch off
  (lines 670, 682, 694 and 827) before it tests its flag again.  So two transmissions are
  active at a time and the cancelled one breaks the pulses of the new plan.

  With \<open>startSOS\<close> at 0 ms and \<open>transmitMorseWithText ''T''\<close> at 100 ms, the SOS loop
  and the Morse loop are both sleeping, and when the timer of the SOS loop fires at
  200 ms the torch goes off in the middle of the dash, which lasts until 700 ms.  With
  \<open>transmitMorseWithText ''T''\<close> at 0 ms and \<open>startSOS\<close> at 100 ms, the timer of the
  cancelled Morse loop fires at 600 ms and switches the torch off in the middle of the
  second SOS pulse.  The buttons of the other mode are disabled while a mode is set, but
  the same happens with the buttons alone: SOS, STOP SOS and Transmit SOS pressed within
  200 ms leave the cancelled SOS loop to switch the torch off in the first Morse pulse,
  and the SOS button pressed three times within 200 ms (start, stop, start) sets the flag
  again before the first loop tests it at 400 ms: two SOS loops then run side by side,
  and neither is cancelled.
\<close>

theorem C2_cancelled_loop_interferes:
  "transmissionState (ui (after [StartSOS] (mounted True))) = RunningSOS
   \<and> transmissionState (ui (after [StartSOS, TransmitMorseWithText ''T''] (mounted True)))
       = RunningMorse
   \<and> isFlashlightOn (ui (after [StartSOS, TransmitMorseWithText ''T''] (mounted True)))
   \<and> timers (after [StartSOS, TransmitMorseWithText ''T''] (mounted True))
       = [(200, SosTask (Dots1Flash 0)),
          (600, MorseTask (AwaitPulse,
                  \<lparr>words = [''T''], wordIndex = 0, chars = ''T'', charIndex = 0,
                   pattern = ''-'', symbolIndex = 0\<rparr>))]
   \<and> transmissionState
        (ui (after [StartSOS, TransmitMorseWithText ''T'', TimerFires 0] (mounted True)))
       = RunningMorse
   \<and> \<not> isFlashlightOn
         (ui (after [StartSOS, TransmitMorseWithText ''T'', TimerFires 0] (mounted True)))
   \<and> timers (after [StartSOS, TransmitMorseWithText ''T'', TimerFires 0] (mounted True))
       = [(200, SosTask (Dots1Pause 0)),
          (600, MorseTask (AwaitPulse,
                  \<lparr>words = [''T''], wordIndex = 0, chars = ''T'', charIndex = 0,
                   pattern = ''-'', symbolIndex = 0\<rparr>))]
   \<and> transmissionState
        (ui (after [TransmitMorseWithText ''T'', StartSOS, TimerFires 1, TimerFires 1]
               (mounted True))) = RunningSOS
   \<and> isFlashlightOn
        (ui (after [TransmitMorseWithText ''T'', StartSOS, TimerFires 1, TimerFires 1]
               (mounted True)))
   \<and> timers (after [TransmitMorseWithText ''T'', StartSOS, TimerFires 1, TimerFires 1]
               (mounted True))
       = [(600, MorseTask (AwaitPulse,
                  \<lparr>words = [''T''], wordIndex = 0, chars = ''T'', charIndex = 0,
                   pattern = ''-'', symbolIndex = 0\<rparr>)),
          (200, SosTask (Dots1Flash 1))]
   \<and> \<not> isFlashlightOn
         (ui (after [TransmitMorseWithText ''T'', StartSOS, TimerFires 1, TimerFires 1,
                     TimerFires 0] (mounted True)))
   \<and> timers (after [TransmitMorseWithText ''T'', StartSOS, TimerFires 1, TimerFires 1,
                     TimerFires 0] (mounted True))
       = [(200, SosTask (Dots1Flash 1))]
   \<and> transmissionState
        (ui (after [HandleSOSToggle, HandleSOSToggle, TransmitMorseWithText ''SOS'',
                    TimerFires 0] (mounted True))) = RunningMorse
   \<and> \<not> isFlashlightOn
         (ui (after [HandleSOSToggle, HandleSOSToggle, TransmitMorseWithText ''SOS'',
                     TimerFires 0] (mounted True)))
   \<and> timers (after [HandleSOSToggle, HandleSOSToggle, TransmitMorseWithText ''SOS'',
                     TimerFires 0] (mounted True))
       = [(200, SosTask (Dots1Pause 0)),
          (200, MorseTask (AwaitPulse,
                  \<lparr>words = [''SOS''], wordIndex = 0, chars = ''SOS'', charIndex = 0,
                   pattern = ''...'', symbolIndex = 0\<rparr>))]
   \<and> sosActiveRef
        (ui (after [HandleSOSToggle, HandleSOSToggle, HandleSOSToggle] (mounted True)))
   \<and> timers (after [HandleSOSToggle, HandleSOSToggle, HandleSOSToggle] (mounted True))
       = [(200, SosTask (Dots1Flash 0)), (200, SosTask (Dots1Flash 0))]
   \<and> timers (after [HandleSOSToggle, HandleSOSToggle, HandleSOSToggle, TimerFires 0,
                     TimerFires 1, TimerFires 0, TimerFires 1] (mounted True))
       = [(200, SosTask (Dots1Flash 1)), (200, SosTask (Dots1Flash 1))]"
  by code_simp

end
